theory Spec2Isabelle
  imports Main "HOL-Library.Sublist"
begin

section \<open>Strings and character classes\<close>

text \<open>
  A JavaScript string is a sequence of UTF-16 code units. Connection strings, times,
  dates and slugs are of type \<^typ>\<open>string\<close>, whose characters are the 256 code units
  U+0000 to U+00FF; on this range \<open>trim\<close>, the regular expression classes \<open>\d\<close>, \<open>\w\<close>,
  \<open>\s\<close> and \<open>encodeURIComponent\<close> are modelled exactly. Titles, which go through
  \<open>toLowerCase\<close>, have a wider alphabet, introduced below. Other code units are
  outside the model.
\<close>

definition isDigit :: "char \<Rightarrow> bool" where
  \<comment> \<open>the class \<open>\d\<close>\<close>
  "isDigit c = (48 \<le> (of_char c :: nat) \<and> (of_char c :: nat) \<le> 57)"

definition isUpper :: "char \<Rightarrow> bool" where
  \<comment> \<open>\<open>[A-Z]\<close>\<close>
  "isUpper c = (65 \<le> (of_char c :: nat) \<and> (of_char c :: nat) \<le> 90)"

definition isLower :: "char \<Rightarrow> bool" where
  \<comment> \<open>\<open>[a-z]\<close>\<close>
  "isLower c = (97 \<le> (of_char c :: nat) \<and> (of_char c :: nat) \<le> 122)"

definition isWord :: "char \<Rightarrow> bool" where
  \<comment> \<open>the class \<open>\w\<close>, which is \<open>[A-Za-z0-9_]\<close> without the unicode flag\<close>
  "isWord c = (isUpper c \<or> isLower c \<or> isDigit c \<or> c = CHR ''_'')"

definition isSpace :: "char \<Rightarrow> bool" where
  \<comment> \<open>the class \<open>\s\<close> and the characters \<open>trim\<close> removes: TAB, LF, VT, FF, CR, SP, NBSP\<close>
  "isSpace c = ((of_char c :: nat) \<in> {9, 10, 11, 12, 13, 32, 160})"

definition toLowerChar :: "char \<Rightarrow> char" where
  \<comment> \<open>\<open>A-Z\<close> and the upper-case letters U+00C0 to U+00DE (not the sign U+00D7) move up by 32\<close>
  "toLowerChar c =
     (let n = (of_char c :: nat)
      in if (65 \<le> n \<and> n \<le> 90) \<or> (192 \<le> n \<and> n \<le> 222 \<and> n \<noteq> 215)
         then char_of (n + 32) else c)"

definition trim :: "string \<Rightarrow> string" where
  "trim s = rev (dropWhile isSpace (rev (dropWhile isSpace s)))"

subsection \<open>Titles\<close>

text \<open>
  \<open>toLowerCase\<close> follows the Unicode case mappings, and beyond U+00FF some of them
  lead back into ASCII: U+212A KELVIN SIGN becomes \<open>k\<close>, and U+0130 LATIN CAPITAL
  LETTER I WITH DOT ABOVE becomes \<open>i\<close> followed by U+0307 COMBINING DOT ABOVE. A title
  is therefore a list of code units that are either one of U+0000 to U+00FF or one of
  these three. None of the three is a word character, white space or a hyphen, and
  U+0307 has no case.
\<close>

datatype unit16 = Latin1 char | U0130 | U0307 | U212A

type_synonym jsstring = "unit16 list"

definition latin1 :: "string \<Rightarrow> jsstring" where
  \<comment> \<open>a string of code units up to U+00FF, as a title\<close>
  "latin1 s = map Latin1 s"

fun isWordUnit :: "unit16 \<Rightarrow> bool" where
  \<comment> \<open>the class \<open>\w\<close> on titles\<close>
  "isWordUnit (Latin1 c) = isWord c"
| "isWordUnit u = False"

fun isSpaceUnit :: "unit16 \<Rightarrow> bool" where
  \<comment> \<open>the class \<open>\s\<close> on titles\<close>
  "isSpaceUnit (Latin1 c) = isSpace c"
| "isSpaceUnit u = False"

fun toLowerUnit :: "unit16 \<Rightarrow> jsstring" where
  "toLowerUnit (Latin1 c) = [Latin1 (toLowerChar c)]"
| "toLowerUnit U0130 = [Latin1 CHR ''i'', U0307]"
| "toLowerUnit U0307 = [U0307]"
| "toLowerUnit U212A = [Latin1 CHR ''k'']"

definition toLowerCase :: "jsstring \<Rightarrow> jsstring" where
  "toLowerCase s = concat (map toLowerUnit s)"

definition trimUnits :: "jsstring \<Rightarrow> jsstring" where
  \<comment> \<open>\<open>trim\<close> on a title\<close>
  "trimUnits s = rev (dropWhile isSpaceUnit (rev (dropWhile isSpaceUnit s)))"

section \<open>The Event model: slugs\<close>

subsection \<open>generateSlug\<close>

definition isSep :: "char \<Rightarrow> bool" where
  \<comment> \<open>the class \<open>[\s_-]\<close>\<close>
  "isSep c = (isSpace c \<or> c = CHR ''_'' \<or> c = CHR ''-'')"

fun removeSpecial :: "jsstring \<Rightarrow> string" where
  \<comment> \<open>\<open>.replace(/[^\w\s-]/g, '')\<close>: every character outside the class is deleted; what
      stays is within U+0000 to U+00FF\<close>
  "removeSpecial [] = []"
| "removeSpecial (Latin1 c # us) =
     (if isWord c \<or> isSpace c \<or> c = CHR ''-'' then c # removeSpecial us
      else removeSpecial us)"
| "removeSpecial (u # us) = removeSpecial us"

function collapseSeps :: "string \<Rightarrow> string" where
  \<comment> \<open>\<open>.replace(/[\s_-]+/g, '-')\<close>: each maximal run of the class becomes one hyphen\<close>
  "collapseSeps [] = []"
| "collapseSeps (c # cs) =
     (if isSep c then CHR ''-'' # collapseSeps (dropWhile isSep cs)
      else c # collapseSeps cs)"
  by pat_completeness auto
termination
  by (relation "measure length") (auto simp: le_imp_less_Suc length_dropWhile_le)

definition trimHyphens :: "string \<Rightarrow> string" where
  \<comment> \<open>\<open>.replace(/^-+|-+$/g, '')\<close>: the leading run and the trailing run of hyphens go\<close>
  "trimHyphens s =
     rev (dropWhile (\<lambda>c. c = CHR ''-'') (rev (dropWhile (\<lambda>c. c = CHR ''-'') s)))"

definition generateSlug :: "jsstring \<Rightarrow> string" where
  "generateSlug text =
     trimHyphens (collapseSeps (removeSpecial (trimUnits (toLowerCase text))))"

subsection \<open>Numbers in template strings\<close>

definition digitChar :: "nat \<Rightarrow> char" where
  "digitChar d = char_of (48 + d)"

fun string_of_nat :: "nat \<Rightarrow> string" where
  \<comment> \<open>\<open>Number.prototype.toString()\<close> of a non-negative integer: its decimal digits\<close>
  "string_of_nat n =
     (if n < 10 then [digitChar n] else string_of_nat (n div 10) @ [digitChar (n mod 10)])"

declare string_of_nat.simps [simp del]

definition parseInt :: "string \<Rightarrow> nat" where
  \<comment> \<open>\<open>parseInt(s, 10)\<close> on a string of decimal digits, the only strings it is given here\<close>
  "parseInt s = foldl (\<lambda>acc c. 10 * acc + ((of_char c :: nat) - 48)) 0 s"

definition padStart :: "nat \<Rightarrow> char \<Rightarrow> string \<Rightarrow> string" where
  \<comment> \<open>\<open>s.padStart(n, c)\<close> with a one-character filler\<close>
  "padStart n c s = replicate (n - length s) c @ s"

subsection \<open>Documents and the Event collection\<close>

text \<open>
  A Mongoose document carries its \<open>_id\<close>, the flag \<open>isNew\<close> and the paths that
  \<open>isModified\<close> reports. Two ObjectIds are compared through \<open>toString()\<close>, which is
  injective, so an identifier is a number here. The fields the hooks never read or
  write stay in the record's extension.
\<close>

type_synonym objectId = nat

record document =
  ident :: objectId
  isNew :: bool
  modifiedPaths :: "string list"

record event = document +
  title :: jsstring
  slug :: string
  date :: string
  time :: string

record booking = document +
  eventId :: objectId
  email :: string

definition isModified :: "string \<Rightarrow> 'a document_scheme \<Rightarrow> bool" where
  "isModified path d = (path \<in> set (modifiedPaths d))"

datatype error =
    InvalidDateFormat string   \<comment> \<open>\<open>Invalid date format: ...\<close>\<close>
  | EventDoesNotExist objectId \<comment> \<open>\<open>Event with ID ... does not exist\<close>\<close>

text \<open>The stored Event documents, in the order in which a query scans them.\<close>

type_synonym 'a events = "'a event_scheme list"

definition findOne :: "'a events \<Rightarrow> string \<Rightarrow> 'a event_scheme option" where
  \<comment> \<open>\<open>mongoose.model('Event').findOne({ slug })\<close>\<close>
  "findOne db s = find (\<lambda>d. slug d = s) db"

definition findById :: "'a events \<Rightarrow> objectId \<Rightarrow> 'a event_scheme option" where
  \<comment> \<open>\<open>EventModel.findById(id)\<close>\<close>
  "findById db i = find (\<lambda>d. ident d = i) db"

subsection \<open>The host's Date\<close>

text \<open>
  \<open>new Date(string)\<close> belongs to the JavaScript host, and what it accepts beyond the
  ISO format is left to the implementation. It is a parameter of the model: a parser
  that returns \<open>None\<close> for an Invalid Date (\<open>getTime()\<close> is \<open>NaN\<close>) and otherwise the
  three readings the code takes from the date.
\<close>

record jsdate =
  isoString :: string  \<comment> \<open>\<open>toISOString()\<close>\<close>
  hours :: nat         \<comment> \<open>\<open>getHours()\<close>\<close>
  minutes :: nat       \<comment> \<open>\<open>getMinutes()\<close>\<close>

type_synonym dateParser = "string \<Rightarrow> jsdate option"

definition sampleDate :: dateParser where
  \<comment> \<open>a host in the UTC time zone that reads the three strings below and nothing else\<close>
  "sampleDate s =
     (if s = ''2000-01-01 9:00 AM''
      then Some \<lparr>isoString = ''2000-01-01T09:00:00.000Z'', hours = 9, minutes = 0\<rparr>
      else if s = ''2000-01-01 9:30 pm''
      then Some \<lparr>isoString = ''2000-01-01T21:30:00.000Z'', hours = 21, minutes = 30\<rparr>
      else if s = ''2024-06-14''
      then Some \<lparr>isoString = ''2024-06-14T00:00:00.000Z'', hours = 0, minutes = 0\<rparr>
      else None)"

subsection \<open>normalizeDate and normalizeTime\<close>

definition normalizeDate :: "dateParser \<Rightarrow> string \<Rightarrow> error + string" where
  "normalizeDate D dateString =
     (case D dateString of
        None \<Rightarrow> Inl (InvalidDateFormat dateString)
      | Some d \<Rightarrow> Inr (takeWhile (\<lambda>c. c \<noteq> CHR ''T'') (isoString d)))"

fun hasAmPm :: "string \<Rightarrow> bool" where
  \<comment> \<open>\<open>trimmed.match(/[ap]m/i)\<close>: an \<open>a\<close> or \<open>p\<close> followed by an \<open>m\<close>, in either case\<close>
  "hasAmPm (a # b # cs) =
     ((a \<in> set ''apAP'' \<and> b \<in> set ''mM'') \<or> hasAmPm (b # cs))"
| "hasAmPm _ = False"

definition timeMatchN :: "nat \<Rightarrow> string \<Rightarrow> (string \<times> string) option" where
  \<comment> \<open>\<open>/^(\d{n}):(\d{2})/\<close> with an hour group of exactly \<open>n\<close> digits\<close>
  "timeMatchN n s =
     (let h = take n s; r = drop n s; m = take 2 (drop 1 r)
      in if length h = n \<and> list_all isDigit h \<and> take 1 r = '':''
            \<and> length m = 2 \<and> list_all isDigit m
         then Some (h, m) else None)"

definition timeMatch :: "string \<Rightarrow> (string \<times> string) option" where
  \<comment> \<open>\<open>trimmed.match(/^(\d{1,2}):(\d{2})/)\<close>: the greedy group tries two digits first\<close>
  "timeMatch s =
     (case timeMatchN 2 s of Some g \<Rightarrow> Some g | None \<Rightarrow> timeMatchN 1 s)"

definition normalizeTime :: "dateParser \<Rightarrow> string \<Rightarrow> string" where
  "normalizeTime D timeString =
     (let trimmed = trim timeString
      in case (if hasAmPm trimmed then D (''2000-01-01 '' @ trimmed) else None) of
           Some d \<Rightarrow>
             padStart 2 CHR ''0'' (string_of_nat (hours d)) @ '':''
               @ padStart 2 CHR ''0'' (string_of_nat (minutes d))
         | None \<Rightarrow>
             (case timeMatch trimmed of
                Some (h, m) \<Rightarrow> padStart 2 CHR ''0'' (string_of_nat (parseInt h)) @ '':'' @ m
              | None \<Rightarrow> trimmed))"

subsection \<open>The pre-save hook of Event\<close>

text \<open>
  The loop \<open>while (true)\<close> has no bound of its own, so it is a partial function: \<open>None\<close>
  is a loop that never leaves. The counter is a JavaScript number, exact up to
  \<open>2^53\<close>, far beyond the size of any collection; it is a natural number here.
  The hook reads \<open>isNew\<close> and \<open>isModified\<close> but never what its own assignments add to
  the modified paths, so the assignments leave \<open>modifiedPaths\<close> alone.
\<close>

partial_function (option) probe ::
  "'a events \<Rightarrow> objectId \<Rightarrow> string \<Rightarrow> string \<Rightarrow> nat \<Rightarrow> string option" where
  "probe db eid baseSlug slug' counter =
     (case findOne db slug' of
        None \<Rightarrow> Some slug'
      | Some existingEvent \<Rightarrow>
          if ident existingEvent = eid then Some slug'
          else probe db eid baseSlug (baseSlug @ ''-'' @ string_of_nat counter) (counter + 1))"

definition resolveSlug :: "'a events \<Rightarrow> 'b event_scheme \<Rightarrow> string option" where
  \<comment> \<open>the body of \<open>if (event.isNew || event.isModified('title'))\<close> up to the assignment\<close>
  "resolveSlug db e = probe db (ident e) (generateSlug (title e)) (generateSlug (title e)) 1"

definition preSaveEvent ::
  "dateParser \<Rightarrow> 'a events \<Rightarrow> 'b event_scheme \<Rightarrow> (error + 'b event_scheme) option" where
  \<comment> \<open>\<open>None\<close>: the probe loop does not return; \<open>Some (Inl err)\<close>: the hook throws\<close>
  "preSaveEvent D db e =
     (case (if isNew e \<or> isModified ''title'' e
            then map_option (\<lambda>s. e\<lparr>slug := s\<rparr>) (resolveSlug db e) else Some e) of
        None \<Rightarrow> None
      | Some e1 \<Rightarrow>
          (case (if isModified ''date'' e1 \<or> isNew e1
                 then map_sum id (\<lambda>d. e1\<lparr>date := d\<rparr>) (normalizeDate D (date e1))
                 else Inr e1) of
             Inl err \<Rightarrow> Some (Inl err)
           | Inr e2 \<Rightarrow>
               Some (Inr (if isModified ''time'' e2 \<or> isNew e2
                          then e2\<lparr>time := normalizeTime D (time e2)\<rparr> else e2))))"

text \<open>The candidates the loop tries, in order: the base slug, then the suffixed ones.\<close>

definition candidate :: "string \<Rightarrow> nat \<Rightarrow> string" where
  "candidate baseSlug k = (if k = 0 then baseSlug else baseSlug @ ''-'' @ string_of_nat k)"

definition takenByOther :: "'a events \<Rightarrow> objectId \<Rightarrow> string \<Rightarrow> bool" where
  \<comment> \<open>the loop condition: a document with this slug exists and it is another document\<close>
  "takenByOther db eid s =
     (case findOne db s of None \<Rightarrow> False | Some existingEvent \<Rightarrow> ident existingEvent \<noteq> eid)"

section \<open>The Booking model\<close>

definition preSaveBooking :: "'a events \<Rightarrow> 'b booking_scheme \<Rightarrow> error + unit" where
  "preSaveBooking db b =
     (if isNew b \<or> isModified ''eventId'' b
      then (case findById db (eventId b) of
              None \<Rightarrow> Inl (EventDoesNotExist (eventId b))
            | Some ev \<Rightarrow> Inr ())
      else Inr ())"

section \<open>The URI normalizer\<close>

subsection \<open>encodeURIComponent\<close>

definition isUnreserved :: "char \<Rightarrow> bool" where
  \<comment> \<open>the characters \<open>encodeURIComponent\<close> keeps: letters, digits and \<open>- _ . ! ~ * ' ( )\<close>\<close>
  "isUnreserved c =
     (isUpper c \<or> isLower c \<or> isDigit c \<or> c \<in> set ''-_.!~*()'' \<or> c = CHR 0x27)"

definition hexDigit :: "nat \<Rightarrow> char" where
  \<comment> \<open>one upper-case hexadecimal digit\<close>
  "hexDigit d = (if d < 10 then char_of (48 + d) else char_of (55 + d))"

definition pctByte :: "nat \<Rightarrow> string" where
  "pctByte b = [CHR ''%'', hexDigit (b div 16), hexDigit (b mod 16)]"

definition encodeChar :: "char \<Rightarrow> string" where
  \<comment> \<open>the UTF-8 octets of the code unit, each as \<open>%XX\<close>: one octet below U+0080, two from there\<close>
  "encodeChar c =
     (let n = (of_char c :: nat)
      in if isUnreserved c then [c]
         else if n < 128 then pctByte n
         else pctByte (192 + n div 64) @ pctByte (128 + n mod 64))"

definition encodeURIComponent :: "string \<Rightarrow> string" where
  "encodeURIComponent s = concat (map encodeChar s)"

subsection \<open>encodeMongoURICredentials\<close>

definition isHex :: "char \<Rightarrow> bool" where
  \<comment> \<open>\<open>[0-9A-Fa-f]\<close>\<close>
  "isHex c =
     (isDigit c \<or> (65 \<le> (of_char c :: nat) \<and> (of_char c :: nat) \<le> 70)
      \<or> (97 \<le> (of_char c :: nat) \<and> (of_char c :: nat) \<le> 102))"

fun isAlreadyEncoded :: "string \<Rightarrow> bool" where
  \<comment> \<open>\<open>/%[0-9A-Fa-f]{2}/.test(str)\<close>: the pattern occurs somewhere in the string\<close>
  "isAlreadyEncoded (a # b # c # cs) =
     ((a = CHR ''%'' \<and> isHex b \<and> isHex c) \<or> isAlreadyEncoded (b # c # cs))"
| "isAlreadyEncoded _ = False"

fun indexOf :: "string \<Rightarrow> char \<Rightarrow> nat option" where
  \<comment> \<open>\<open>s.indexOf(c)\<close>; \<open>None\<close> stands for \<open>-1\<close>\<close>
  "indexOf [] c = None"
| "indexOf (x # xs) c = (if x = c then Some 0 else map_option Suc (indexOf xs c))"

definition protocolMatch :: "string \<Rightarrow> string option" where
  \<comment> \<open>\<open>uri.match(/^(mongodb(?:\+srv)?:\/\/)/)\<close>, the captured protocol\<close>
  "protocolMatch uri =
     (if prefix ''mongodb+srv://'' uri then Some ''mongodb+srv://''
      else if prefix ''mongodb://'' uri then Some ''mongodb://''
      else None)"

definition encodeMongoURICredentials :: "string \<Rightarrow> string" where
  "encodeMongoURICredentials uri =
     (case protocolMatch uri of
        None \<Rightarrow> uri
      | Some protocol \<Rightarrow>
          (let afterProtocol = drop (length protocol) uri
           in case indexOf afterProtocol CHR ''@'' of
                None \<Rightarrow> uri
              | Some atIndex \<Rightarrow>
                  (let credentialsPart = take atIndex afterProtocol;
                       hostAndPath = drop (atIndex + 1) afterProtocol
                   in case indexOf credentialsPart CHR '':'' of
                        None \<Rightarrow>
                          (let encodedUsername =
                                 (if isAlreadyEncoded credentialsPart then credentialsPart
                                  else encodeURIComponent credentialsPart)
                           in protocol @ encodedUsername @ ''@'' @ hostAndPath)
                      | Some colonIndex \<Rightarrow>
                          (let username = take colonIndex credentialsPart;
                               password = drop (colonIndex + 1) credentialsPart;
                               encodedUsername =
                                 (if isAlreadyEncoded username then username
                                  else encodeURIComponent username);
                               encodedPassword =
                                 (if isAlreadyEncoded password then password
                                  else encodeURIComponent password)
                           in protocol @ encodedUsername @ '':'' @ encodedPassword
                                @ ''@'' @ hostAndPath))))"

subsection \<open>normalizeMongoURI\<close>

text \<open>
  The port pattern is \<open>/(mongodb\+srv:\/\/[^@]+@[^:\/]+):\d+(\/|\?|$)/\<close>.
  \<open>portMatch\<close> matches it at the start of its argument. Each of the three greedy classes
  is followed by a character outside the class, so a match can only take the maximal
  run of the class, and no backtracking into a shorter run can succeed. The result is
  the first group and the text that follows \<open>:\d+\<close>, which begins with the second
  group.
\<close>

definition portMatch :: "string \<Rightarrow> (string \<times> string) option" where
  "portMatch s =
     (if prefix ''mongodb+srv://'' s
      then (let r0 = drop 14 s;
                creds = takeWhile (\<lambda>c. c \<noteq> CHR ''@'') r0;
                r1 = dropWhile (\<lambda>c. c \<noteq> CHR ''@'') r0;
                host = takeWhile (\<lambda>c. c \<noteq> CHR '':'' \<and> c \<noteq> CHR ''/'') (drop 1 r1);
                r2 = dropWhile (\<lambda>c. c \<noteq> CHR '':'' \<and> c \<noteq> CHR ''/'') (drop 1 r1);
                digits = takeWhile isDigit (drop 1 r2);
                r3 = dropWhile isDigit (drop 1 r2)
            in if creds \<noteq> [] \<and> take 1 r1 = ''@'' \<and> host \<noteq> [] \<and> take 1 r2 = '':''
                  \<and> digits \<noteq> [] \<and> (r3 = [] \<or> take 1 r3 = ''/'' \<or> take 1 r3 = ''?'')
               then Some (''mongodb+srv://'' @ creds @ ''@'' @ host, r3)
               else None)
      else None)"

fun replacePort :: "string \<Rightarrow> string" where
  \<comment> \<open>\<open>.replace(pattern, '$1$2')\<close> without the \<open>g\<close> flag: the leftmost match only\<close>
  "replacePort [] = []"
| "replacePort (c # cs) =
     (case portMatch (c # cs) of
        Some (group1, rest) \<Rightarrow> group1 @ rest
      | None \<Rightarrow> c # replacePort cs)"

definition normalizeMongoURI :: "string \<Rightarrow> string" where
  "normalizeMongoURI uri =
     (let normalized = encodeMongoURICredentials uri
      in if prefix ''mongodb+srv://'' normalized then replacePort normalized
         else normalized)"

section \<open>The connection manager\<close>

text \<open>
  JavaScript runs one piece of code at a time and an \<open>async\<close> function gives up control
  only at an \<open>await\<close>. \<open>connectDB\<close> is therefore three atomic segments: the code up to
  the \<open>await\<close>, the handlers \<open>.then\<close> and \<open>.catch\<close> that run when \<open>mongoose.connect\<close>
  settles, and the code after the \<open>await\<close>. A promise is named by the number of the
  \<open>mongoose.connect\<close> invocation that created it.
\<close>

type_synonym handle = nat

datatype outcome = Fulfilled handle | Rejected string

record runtime =
  conn :: "handle option"            \<comment> \<open>\<open>globalForMongoose.mongoose.conn\<close>\<close>
  promise :: "nat option"            \<comment> \<open>\<open>globalForMongoose.mongoose.promise\<close>\<close>
  connectCalls :: nat                \<comment> \<open>invocations of \<open>mongoose.connect\<close> so far\<close>
  settled :: "nat \<Rightarrow> outcome option" \<comment> \<open>how each promise has settled, if it has\<close>

definition connectDB_call :: "runtime \<Rightarrow> (handle + nat) \<times> runtime" where
  \<comment> \<open>up to the \<open>await\<close>: \<open>Inl\<close> returns the cached handle, \<open>Inr p\<close> awaits promise \<open>p\<close>\<close>
  "connectDB_call w =
     (case conn w of
        Some h \<Rightarrow> (Inl h, w)
      | None \<Rightarrow>
          (case promise w of
             None \<Rightarrow>
               (Inr (connectCalls w),
                w\<lparr>promise := Some (connectCalls w), connectCalls := Suc (connectCalls w)\<rparr>)
           | Some p \<Rightarrow> (Inr p, w)))"

definition connect_settles :: "nat \<Rightarrow> outcome \<Rightarrow> runtime \<Rightarrow> runtime" where
  \<comment> \<open>\<open>.then\<close> passes the instance on; \<open>.catch\<close> clears the promise and throws again\<close>
  "connect_settles p out w =
     (case out of
        Fulfilled h \<Rightarrow> w\<lparr>settled := (settled w)(p \<mapsto> Fulfilled h)\<rparr>
      | Rejected err \<Rightarrow> w\<lparr>promise := None, settled := (settled w)(p \<mapsto> Rejected err)\<rparr>)"

definition connectDB_resume :: "nat \<Rightarrow> runtime \<Rightarrow> (string + handle) option \<times> runtime" where
  \<comment> \<open>after the \<open>await\<close>: \<open>None\<close> while the promise is pending, \<open>Inl\<close> a thrown error\<close>
  "connectDB_resume p w =
     (case settled w p of
        None \<Rightarrow> (None, w)
      | Some (Fulfilled h) \<Rightarrow> (Some (Inr h), w\<lparr>conn := Some h\<rparr>)
      | Some (Rejected err) \<Rightarrow> (Some (Inl err), w\<lparr>promise := None\<rparr>))"

fun callAll :: "nat \<Rightarrow> runtime \<Rightarrow> (handle + nat) list \<times> runtime" where
  \<comment> \<open>\<open>n\<close> callers enter \<open>connectDB\<close> one after the other\<close>
  "callAll 0 w = ([], w)"
| "callAll (Suc n) w =
     (let (r, w1) = connectDB_call w; (rs, w2) = callAll n w1 in (r # rs, w2))"

fun resumeAll :: "nat list \<Rightarrow> runtime \<Rightarrow> (string + handle) option list \<times> runtime" where
  \<comment> \<open>the suspended callers continue, each after the promise it awaits\<close>
  "resumeAll [] w = ([], w)"
| "resumeAll (p # ps) w =
     (let (r, w1) = connectDB_resume p w; (rs, w2) = resumeAll ps w1 in (r # rs, w2))"

definition emptyCache :: "runtime \<Rightarrow> bool" where
  "emptyCache w = (conn w = None \<and> promise w = None)"

section \<open>Sample documents\<close>

definition storedEvent :: "objectId \<Rightarrow> string \<Rightarrow> string \<Rightarrow> event" where
  \<comment> \<open>an Event that is already in the collection, its title of code units up to U+00FF\<close>
  "storedEvent i t s =
     \<lparr>ident = i, isNew = False, modifiedPaths = [], title = latin1 t, slug = s,
      date = ''2024-06-14'', time = ''09:00''\<rparr>"

definition newEvent :: "objectId \<Rightarrow> string \<Rightarrow> event" where
  \<comment> \<open>an Event built by \<open>new Event(...)\<close> and not saved yet\<close>
  "newEvent i t =
     \<lparr>ident = i, isNew = True, modifiedPaths = [], title = latin1 t, slug = [],
      date = ''2024-06-14'', time = ''9:00 AM''\<rparr>"

definition saveBooking ::
  "('b booking_scheme \<Rightarrow> 's \<Rightarrow> 's) \<Rightarrow> 'a events \<Rightarrow> 's \<Rightarrow> 'b booking_scheme
     \<Rightarrow> (error + unit) \<times> 's" where
  \<comment> \<open>\<open>booking.save()\<close>: Mongoose runs the pre-save hook first and a hook that throws
      ends the save; otherwise the store's write, a parameter here, is applied\<close>
  "saveBooking write db store b =
     (case preSaveBooking db b of
        Inl err \<Rightarrow> (Inl err, store)
      | Inr u \<Rightarrow> (Inr (), write b store))"

definition existingBooking :: "objectId \<Rightarrow> objectId \<Rightarrow> booking" where
  \<comment> \<open>a stored Booking, loaded again, whose \<open>email\<close> alone was changed\<close>
  "existingBooking i ev =
     \<lparr>ident = i, isNew = False, modifiedPaths = [''email''], eventId = ev,
      email = ''ada@example.org''\<rparr>"

definition newBooking :: "objectId \<Rightarrow> objectId \<Rightarrow> booking" where
  "newBooking i ev =
     \<lparr>ident = i, isNew = True, modifiedPaths = [], eventId = ev,
      email = ''ada@example.org''\<rparr>"

fun awaited :: "(handle + nat) list \<Rightarrow> nat list" where
  \<comment> \<open>the promises that the suspended callers wait for\<close>
  "awaited [] = []"
| "awaited (Inl h # rs) = awaited rs"
| "awaited (Inr p # rs) = p # awaited rs"

definition concurrentCalls ::
  "nat \<Rightarrow> outcome \<Rightarrow> runtime \<Rightarrow> (string + handle) option list \<times> runtime" where
  \<comment> \<open>\<open>n\<close> calls are issued, then the connection attempt settles with \<open>out\<close>, then the
      suspended callers continue\<close>
  "concurrentCalls n out w =
     (let (rs, w1) = callAll n w;
          w2 = connect_settles (connectCalls w) out w1
      in resumeAll (awaited rs) w2)"

section \<open>Vocabulary for the statements about the URI normalizer\<close>

definition encodePart :: "string \<Rightarrow> string" where
  \<comment> \<open>what the code does to a user name or a password\<close>
  "encodePart x = (if isAlreadyEncoded x then x else encodeURIComponent x)"

definition encodeCredentials :: "string \<Rightarrow> string" where
  \<comment> \<open>the credentials segment after encoding: split at its first colon, if it has one\<close>
  "encodeCredentials creds =
     (case indexOf creds CHR '':'' of
        None \<Rightarrow> encodePart creds
      | Some colonIndex \<Rightarrow>
          encodePart (take colonIndex creds) @ '':'' @ encodePart (drop (colonIndex + 1) creds))"

section \<open>Properties of the slug derivation\<close>

lemma of_char_toLower_bound: "\<not> isUpper (toLowerChar c)"
  by (auto simp: isUpper_def toLowerChar_def Let_def)

lemma toLowerUnit_no_upper: "Latin1 c \<in> set (toLowerUnit u) \<Longrightarrow> \<not> isUpper c"
proof (cases u)
  case (Latin1 x)
  assume "Latin1 c \<in> set (toLowerUnit u)"
  with Latin1 have "c = toLowerChar x" by simp
  then show ?thesis by (simp add: of_char_toLower_bound)
qed (auto simp: isUpper_def)

lemma toLowerCase_no_upper: "Latin1 c \<in> set (toLowerCase s) \<Longrightarrow> \<not> isUpper c"
  by (auto simp: toLowerCase_def dest: toLowerUnit_no_upper)

lemma set_trimUnits: "u \<in> set (trimUnits s) \<Longrightarrow> u \<in> set s"
  by (auto simp: trimUnits_def dest!: set_dropWhileD)

lemma set_removeSpecial:
  "c \<in> set (removeSpecial s) \<Longrightarrow>
     Latin1 c \<in> set s \<and> (isWord c \<or> isSpace c \<or> c = CHR ''-'')"
  by (induction s rule: removeSpecial.induct) (auto split: if_splits)

lemma set_collapseSeps:
  "c \<in> set (collapseSeps s) \<Longrightarrow> c = CHR ''-'' \<or> (c \<in> set s \<and> \<not> isSep c)"
  by (induction s rule: collapseSeps.induct) (auto split: if_splits dest: set_dropWhileD)

lemma collapseSeps_head:
  "\<not> prefix ''-'' (collapseSeps (dropWhile isSep cs))"
proof (cases "dropWhile isSep cs")
  case Nil
  show ?thesis unfolding Nil by simp
next
  case (Cons d ds)
  then have "\<not> isSep d" using hd_dropWhile[of isSep cs] by auto
  then show ?thesis unfolding Cons by (auto simp: isSep_def)
qed

lemma collapseSeps_single: "\<not> sublist ''--'' (collapseSeps s)"
proof (induction s rule: collapseSeps.induct)
  case 1
  then show ?case by simp
next
  case (2 c cs)
  show ?case
  proof (cases "isSep c")
    case True
    with 2 collapseSeps_head[of cs] show ?thesis
      by (auto simp: sublist_Cons_right)
  next
    case False
    then have "c \<noteq> CHR ''-''" by (auto simp: isSep_def)
    with 2 False show ?thesis
      by (auto simp: sublist_Cons_right)
  qed
qed

lemma dropWhile_no_prefix: "P a \<Longrightarrow> \<not> prefix [a] (dropWhile P s)"
  by (induction s) auto

lemma rev_dropWhile_rev_prefix: "prefix (rev (dropWhile P (rev s))) s"
proof -
  have "suffix (dropWhile P (rev s)) (rev s)" by (rule suffix_dropWhile)
  then show ?thesis by (metis suffix_to_prefix rev_rev_ident)
qed

lemma trimHyphens_suffix: "\<not> suffix ''-'' (trimHyphens s)"
proof -
  have "\<not> prefix ''-'' (dropWhile (\<lambda>c. c = CHR ''-'') (rev (dropWhile (\<lambda>c. c = CHR ''-'') s)))"
    by (rule dropWhile_no_prefix) simp
  then show ?thesis
    by (simp add: trimHyphens_def suffix_to_prefix)
qed

lemma trimHyphens_prefix: "\<not> prefix ''-'' (trimHyphens s)"
proof
  assume "prefix ''-'' (trimHyphens s)"
  moreover have "prefix (trimHyphens s) (dropWhile (\<lambda>c. c = CHR ''-'') s)"
    unfolding trimHyphens_def by (rule rev_dropWhile_rev_prefix)
  ultimately have "prefix ''-'' (dropWhile (\<lambda>c. c = CHR ''-'') s)"
    by (rule prefix_order.trans)
  then show False using dropWhile_no_prefix[of "\<lambda>c. c = CHR ''-''" "CHR ''-''" s] by simp
qed

lemma trimHyphens_sublist: "sublist (trimHyphens s) s"
proof -
  have "prefix (trimHyphens s) (dropWhile (\<lambda>c. c = CHR ''-'') s)"
    unfolding trimHyphens_def by (rule rev_dropWhile_rev_prefix)
  moreover have "suffix (dropWhile (\<lambda>c. c = CHR ''-'') s) s" by (rule suffix_dropWhile)
  ultimately show ?thesis
    by (meson prefix_imp_sublist suffix_imp_sublist sublist_order.order_trans)
qed

lemma set_generateSlug:
  assumes "c \<in> set (generateSlug t)"
  shows "isLower c \<or> isDigit c \<or> c = CHR ''-''"
proof -
  from assms have "c \<in> set (collapseSeps (removeSpecial (trimUnits (toLowerCase t))))"
    using trimHyphens_sublist set_mono_sublist unfolding generateSlug_def by blast
  then have "c = CHR ''-''
      \<or> (c \<in> set (removeSpecial (trimUnits (toLowerCase t))) \<and> \<not> isSep c)"
    by (rule set_collapseSeps)
  then show ?thesis
  proof
    assume "c = CHR ''-''" then show ?thesis by simp
  next
    assume h: "c \<in> set (removeSpecial (trimUnits (toLowerCase t))) \<and> \<not> isSep c"
    then have "isWord c" by (auto simp: isSep_def dest: set_removeSpecial)
    moreover from h have "Latin1 c \<in> set (toLowerCase t)"
      by (auto dest: set_removeSpecial set_trimUnits)
    then have "\<not> isUpper c" by (rule toLowerCase_no_upper)
    moreover from h have "c \<noteq> CHR ''_''" by (simp add: isSep_def)
    ultimately show ?thesis by (auto simp: isWord_def)
  qed
qed

text \<open>
  Claim C5. For every title, the base slug holds only lower-case letters, digits and
  hyphens, never two hyphens in a row, and neither starts nor ends with a hyphen;
  \<open>generateSlug("React Summit 2024!")\<close> is \<open>"react-summit-2024"\<close>.
\<close>

theorem generateSlug_shape:
  "(\<forall>c \<in> set (generateSlug t). isLower c \<or> isDigit c \<or> c = CHR ''-'')
   \<and> \<not> sublist ''--'' (generateSlug t)
   \<and> \<not> prefix ''-'' (generateSlug t) \<and> \<not> suffix ''-'' (generateSlug t)
   \<and> generateSlug (latin1 ''React Summit 2024!'') = ''react-summit-2024''"
proof -
  have "\<not> sublist ''--'' (generateSlug t)"
    using collapseSeps_single trimHyphens_sublist sublist_order.order_trans
    unfolding generateSlug_def by blast
  moreover have "generateSlug (latin1 ''React Summit 2024!'') = ''react-summit-2024''"
    by code_simp
  ultimately show ?thesis
    using set_generateSlug trimHyphens_prefix trimHyphens_suffix
    unfolding generateSlug_def by blast
qed

theorem generateSlug_shape_witness:
  "CHR ''h'' \<in> set (generateSlug (latin1 ''  Hello__World -- x  ''))
   \<and> (isLower CHR ''h'' \<or> isDigit CHR ''h'' \<or> CHR ''h'' = CHR ''-'')
   \<and> generateSlug (latin1 ''  Hello__World -- x  '') = ''hello-world-x''"
proof -
  have e: "generateSlug (latin1 ''  Hello__World -- x  '') = ''hello-world-x''" by code_simp
  have "CHR ''h'' \<in> set (generateSlug (latin1 ''  Hello__World -- x  ''))" by (simp add: e)
  then show ?thesis
    using generateSlug_shape[of "latin1 ''  Hello__World -- x  ''"] e by blast
qed

section \<open>Properties of the probe loop\<close>

lemma probe_run:
  "(\<forall>j<n. takenByOther db eid (candidate b (c + j))) \<Longrightarrow>
   \<not> takenByOther db eid (candidate b (c + n)) \<Longrightarrow>
   probe db eid b (candidate b c) (Suc c) = Some (candidate b (c + n))"
proof (induction n arbitrary: c)
  case 0
  then show ?case
    by (subst probe.simps) (auto simp: takenByOther_def split: option.splits)
next
  case (Suc n)
  from Suc.prems(1) have t: "takenByOther db eid (candidate b c)" by force
  have "probe db eid b (candidate b c) (Suc c)
        = probe db eid b (candidate b (Suc c)) (Suc (Suc c))"
    using t by (subst probe.simps) (auto simp: takenByOther_def candidate_def split: option.splits)
  also have "\<dots> = Some (candidate b (Suc c + n))"
  proof (rule Suc.IH)
    show "\<forall>j<n. takenByOther db eid (candidate b (Suc c + j))"
      using Suc.prems(1) by (metis Suc_less_eq add_Suc_right add_Suc)
    show "\<not> takenByOther db eid (candidate b (Suc c + n))"
      using Suc.prems(2) by simp
  qed
  finally show ?case by simp
qed

lemma digitChar_inj: "a < 10 \<Longrightarrow> b < 10 \<Longrightarrow> digitChar a = digitChar b \<Longrightarrow> a = b"
proof -
  assume a: "a < 10" and b: "b < 10" and e: "digitChar a = digitChar b"
  from e have "(of_char (digitChar a) :: nat) = of_char (digitChar b)" by simp
  then show "a = b" using a b by (simp add: digitChar_def)
qed

lemma string_of_nat_nonempty: "string_of_nat n \<noteq> []"
  by (subst string_of_nat.simps) simp

lemma string_of_nat_inj: "string_of_nat n = string_of_nat m \<Longrightarrow> n = m"
proof (induction n arbitrary: m rule: string_of_nat.induct)
  case (1 n)
  show ?case
  proof (cases "n < 10")
    case True
    then have sn: "string_of_nat n = [digitChar n]" by (subst string_of_nat.simps) simp
    show ?thesis
    proof (cases "m < 10")
      case True
      then have "string_of_nat m = [digitChar m]" by (subst string_of_nat.simps) simp
      with sn "1.prems" have "digitChar n = digitChar m" by simp
      then show ?thesis using \<open>n < 10\<close> True by (rule digitChar_inj[rotated 2])
    next
      case False
      then have "string_of_nat m = string_of_nat (m div 10) @ [digitChar (m mod 10)]"
        by (subst string_of_nat.simps) simp
      with sn "1.prems" string_of_nat_nonempty[of "m div 10"] show ?thesis by simp
    qed
  next
    case False
    then have sn: "string_of_nat n = string_of_nat (n div 10) @ [digitChar (n mod 10)]"
      by (subst string_of_nat.simps) simp
    show ?thesis
    proof (cases "m < 10")
      case True
      then have "string_of_nat m = [digitChar m]" by (subst string_of_nat.simps) simp
      with sn "1.prems" string_of_nat_nonempty[of "n div 10"] show ?thesis by simp
    next
      case mf: False
      then have "string_of_nat m = string_of_nat (m div 10) @ [digitChar (m mod 10)]"
        by (subst string_of_nat.simps) simp
      with sn "1.prems" have e1: "string_of_nat (n div 10) = string_of_nat (m div 10)"
        and e2: "digitChar (n mod 10) = digitChar (m mod 10)" by simp_all
      from "1.IH"[OF False e1] have "n div 10 = m div 10" .
      moreover from e2 have "n mod 10 = m mod 10" by (intro digitChar_inj) simp_all
      ultimately show ?thesis by (metis div_mult_mod_eq)
    qed
  qed
qed

lemma candidate_inj: "candidate b j = candidate b k \<Longrightarrow> j = k"
  by (auto simp: candidate_def string_of_nat_inj split: if_splits)

lemma takenByOther_slug: "takenByOther db eid s \<Longrightarrow> s \<in> slug ` set db"
  by (auto simp: takenByOther_def findOne_def find_Some_iff split: option.splits)

lemma free_candidate: "\<exists>k\<le>length db. \<not> takenByOther db eid (candidate b k)"
proof (rule ccontr)
  assume "\<not> ?thesis"
  then have all: "\<forall>k\<le>length db. takenByOther db eid (candidate b k)" by blast
  have "candidate b ` {..length db} \<subseteq> slug ` set db"
    using all takenByOther_slug by fastforce
  then have "card (candidate b ` {..length db}) \<le> card (slug ` set db)"
    by (intro card_mono) auto
  moreover have "card (candidate b ` {..length db}) = Suc (length db)"
    by (subst card_image) (auto simp: inj_on_def dest: candidate_inj)
  moreover have "card (slug ` set db) \<le> length db"
    by (meson card_image_le card_length le_trans List.finite_set)
  ultimately show False by simp
qed

lemma first_free_candidate:
  "\<exists>k\<le>length db. (\<forall>j<k. takenByOther db eid (candidate b j))
       \<and> \<not> takenByOther db eid (candidate b k)"
proof -
  define k where "k = (LEAST k. \<not> takenByOther db eid (candidate b k))"
  obtain k0 where k0: "k0 \<le> length db" "\<not> takenByOther db eid (candidate b k0)"
    using free_candidate by blast
  have "\<not> takenByOther db eid (candidate b k)"
    unfolding k_def using k0(2) by (rule LeastI)
  moreover have "k \<le> k0" unfolding k_def using k0(2) by (rule Least_le)
  moreover have "\<forall>j<k. takenByOther db eid (candidate b j)"
    unfolding k_def using not_less_Least by blast
  ultimately show ?thesis using k0(1) by (meson le_trans)
qed

lemma resolveSlug_candidate:
  "(\<forall>j<k. takenByOther db (ident e) (candidate (generateSlug (title e)) j)) \<Longrightarrow>
   \<not> takenByOther db (ident e) (candidate (generateSlug (title e)) k) \<Longrightarrow>
   resolveSlug db e = Some (candidate (generateSlug (title e)) k)"
  using probe_run[of k db "ident e" "generateSlug (title e)" 0]
  by (simp add: resolveSlug_def candidate_def)

lemma string_of_nat_digit: "n < 10 \<Longrightarrow> string_of_nat n = [digitChar n]"
  by (subst string_of_nat.simps) simp

lemma generateSlug_react:
  "generateSlug (latin1 ''React Summit 2024'') = ''react-summit-2024''"
  by code_simp

text \<open>
  Claim C6. With another record holding \<open>react-summit-2024\<close>, a new record titled
  \<open>React Summit 2024\<close> gets \<open>react-summit-2024-1\<close>, and with that slug taken as well the
  next one gets \<open>react-summit-2024-2\<close>: the loop returns the first candidate among the
  base slug and its suffixed forms \<open>-1\<close>, \<open>-2\<close>, ... that no other record holds, and it
  always finds one.
\<close>

theorem probe_appends_suffixes:
  "resolveSlug [storedEvent 1 ''React Summit 2024'' ''react-summit-2024'']
       (newEvent 2 ''React Summit 2024'') = Some ''react-summit-2024-1''
   \<and> resolveSlug [storedEvent 1 ''React Summit 2024'' ''react-summit-2024'',
                  storedEvent 2 ''React Summit 2024'' ''react-summit-2024-1'']
       (newEvent 3 ''React Summit 2024'') = Some ''react-summit-2024-2''
   \<and> preSaveEvent sampleDate [storedEvent 1 ''React Summit 2024'' ''react-summit-2024'']
       (newEvent 2 ''React Summit 2024'')
       = Some (Inr ((newEvent 2 ''React Summit 2024'')
                      \<lparr>slug := ''react-summit-2024-1'', time := ''09:00''\<rparr>))
   \<and> ((\<forall>j<k. takenByOther db (ident e) (candidate (generateSlug (title e)) j))
        \<and> \<not> takenByOther db (ident e) (candidate (generateSlug (title e)) k)
       \<longrightarrow> resolveSlug db e = Some (candidate (generateSlug (title e)) k))
   \<and> (\<exists>k\<le>length db. resolveSlug db e = Some (candidate (generateSlug (title e)) k))"
proof -
  let ?b = "''react-summit-2024''"
  let ?db1 = "[storedEvent 1 ''React Summit 2024'' ?b]"
  let ?db2 = "[storedEvent 1 ''React Summit 2024'' ?b,
               storedEvent 2 ''React Summit 2024'' ''react-summit-2024-1'']"
  have c1: "candidate ?b 1 = ''react-summit-2024-1''"
    by code_simp
  have c2: "candidate ?b 2 = ''react-summit-2024-2''"
    by code_simp
  have c0: "candidate ?b 0 = ?b" by (simp add: candidate_def)
  have a: "resolveSlug ?db1 (newEvent 2 ''React Summit 2024'') = Some (candidate ?b 1)"
  proof -
    have "\<forall>j<1. takenByOther ?db1 2 (candidate ?b j)"
      by (simp add: c0 takenByOther_def findOne_def storedEvent_def)
    moreover have "\<not> takenByOther ?db1 2 (candidate ?b 1)"
      by (simp only: c1) (simp add: takenByOther_def findOne_def storedEvent_def)
    ultimately show ?thesis
      using resolveSlug_candidate[of 1 ?db1 "newEvent 2 ''React Summit 2024''"]
      by (simp add: newEvent_def generateSlug_react)
  qed
  have b: "resolveSlug ?db2 (newEvent 3 ''React Summit 2024'') = Some (candidate ?b 2)"
  proof -
    have "takenByOther ?db2 3 (candidate ?b 0)"
      by (simp add: c0 takenByOther_def findOne_def storedEvent_def)
    moreover have "takenByOther ?db2 3 (candidate ?b 1)"
      by (simp only: c1) (simp add: takenByOther_def findOne_def storedEvent_def)
    ultimately have "\<forall>j<2. takenByOther ?db2 3 (candidate ?b j)"
      by (simp add: less_Suc_eq numeral_2_eq_2)
    moreover have "\<not> takenByOther ?db2 3 (candidate ?b 2)"
      by (simp only: c2) (simp add: takenByOther_def findOne_def storedEvent_def)
    ultimately show ?thesis
      using resolveSlug_candidate[of 2 ?db2 "newEvent 3 ''React Summit 2024''"]
      by (simp add: newEvent_def generateSlug_react)
  qed
  have c: "\<exists>k\<le>length db. resolveSlug db e = Some (candidate (generateSlug (title e)) k)"
    using first_free_candidate[of db "ident e" "generateSlug (title e)"]
      resolveSlug_candidate[of _ db e] by blast
  have t: "normalizeTime sampleDate ''9:00 AM'' = ''09:00''" by code_simp
  have d: "normalizeDate sampleDate ''2024-06-14'' = Inr ''2024-06-14''" by code_simp
  have p: "preSaveEvent sampleDate ?db1 (newEvent 2 ''React Summit 2024'')
       = Some (Inr ((newEvent 2 ''React Summit 2024'')
                      \<lparr>slug := ''react-summit-2024-1'', time := ''09:00''\<rparr>))"
    using a unfolding c1 by (simp add: preSaveEvent_def newEvent_def t d)
  show ?thesis
    using a b c p resolveSlug_candidate[of k db e] by (simp only: c1 c2) blast
qed

theorem probe_appends_suffixes_witness:
  "takenByOther [storedEvent 1 ''React Summit 2024'' ''react-summit-2024''] 2
             (candidate ''react-summit-2024'' 0)
   \<and> \<not> takenByOther [storedEvent 1 ''React Summit 2024'' ''react-summit-2024''] 2
             (candidate ''react-summit-2024'' 1)
   \<and> resolveSlug [storedEvent 1 ''React Summit 2024'' ''react-summit-2024'']
         (newEvent 2 ''React Summit 2024'') = Some (candidate ''react-summit-2024'' 1)"
proof -
  let ?db1 = "[storedEvent 1 ''React Summit 2024'' ''react-summit-2024'']"
  let ?e = "newEvent 2 ''React Summit 2024''"
  have h1: "\<forall>j<1. takenByOther ?db1 2 (candidate ''react-summit-2024'' j)"
    by (simp add: candidate_def takenByOther_def findOne_def storedEvent_def)
  have c1: "candidate ''react-summit-2024'' 1 = ''react-summit-2024-1''" by code_simp
  have h2: "\<not> takenByOther ?db1 2 (candidate ''react-summit-2024'' 1)"
    by (simp only: c1) (simp add: takenByOther_def findOne_def storedEvent_def)
  have i: "ident ?e = 2" by (simp add: newEvent_def)
  have g: "generateSlug (title ?e) = ''react-summit-2024''"
    by (simp add: newEvent_def generateSlug_react)
  have "(\<forall>j<1. takenByOther ?db1 2 (candidate ''react-summit-2024'' j))
        \<and> \<not> takenByOther ?db1 2 (candidate ''react-summit-2024'' 1)
        \<longrightarrow> resolveSlug ?db1 ?e = Some (candidate ''react-summit-2024'' 1)"
    using probe_appends_suffixes[of 1 ?db1 ?e] unfolding i g by blast
  with h1 h2 show ?thesis by simp
qed

lemma probe_same_record:
  "findOne db s = Some ex \<Longrightarrow> ident ex = eid \<Longrightarrow> probe db eid b s c = Some s"
  by (subst probe.simps) simp

text \<open>
  Claim C7. Saving an existing Event whose title was not modified leaves its slug as
  it is: the hook returns without running the probe loop, whatever else was modified.
  When the loop does run and the first query finds the record that is being saved, the
  base slug is accepted at once.
\<close>

theorem slug_kept_without_title_change:
  "(\<not> isNew e \<and> \<not> isModified ''title'' e \<longrightarrow>
      preSaveEvent D db e \<noteq> None
      \<and> (\<forall>e'. preSaveEvent D db e = Some (Inr e') \<longrightarrow> slug e' = slug e \<and> title e' = title e))
   \<and> (findOne db (generateSlug (title e)) = Some ex \<and> ident ex = ident e \<longrightarrow>
      resolveSlug db e = Some (generateSlug (title e)))"
proof -
  have "resolveSlug db e = Some (generateSlug (title e))"
    if "findOne db (generateSlug (title e)) = Some ex" "ident ex = ident e"
    using that by (simp add: resolveSlug_def probe_same_record)
  moreover have "preSaveEvent D db e \<noteq> None" if "\<not> isNew e" "\<not> isModified ''title'' e"
    using that by (simp add: preSaveEvent_def split: sum.splits)
  moreover have "slug e' = slug e \<and> title e' = title e"
    if "\<not> isNew e" "\<not> isModified ''title'' e" "preSaveEvent D db e = Some (Inr e')" for e'
    using that
    by (auto simp: preSaveEvent_def isModified_def normalizeDate_def
        split: sum.splits if_splits option.splits)
  ultimately show ?thesis by blast
qed

theorem slug_kept_without_title_change_witness:
  "\<not> isNew ((storedEvent 1 ''React Summit 2024'' ''react-summit-2024'')\<lparr>modifiedPaths := [''time''], time := ''9:30 pm''\<rparr>)
   \<and> \<not> isModified ''title'' ((storedEvent 1 ''React Summit 2024'' ''react-summit-2024'')\<lparr>modifiedPaths := [''time''], time := ''9:30 pm''\<rparr>)
   \<and> preSaveEvent sampleDate [storedEvent 1 ''React Summit 2024'' ''react-summit-2024'']
        ((storedEvent 1 ''React Summit 2024'' ''react-summit-2024'')\<lparr>modifiedPaths := [''time''], time := ''9:30 pm''\<rparr>)
      = Some (Inr ((storedEvent 1 ''React Summit 2024'' ''react-summit-2024'')\<lparr>modifiedPaths := [''time''], time := ''21:30''\<rparr>))
   \<and> slug ((storedEvent 1 ''React Summit 2024'' ''react-summit-2024'')\<lparr>modifiedPaths := [''time''], time := ''21:30''\<rparr>)
      = slug (storedEvent 1 ''React Summit 2024'' ''react-summit-2024'')"
proof -
  let ?s = "storedEvent 1 ''React Summit 2024'' ''react-summit-2024''"
  let ?e = "?s\<lparr>modifiedPaths := [''time''], time := ''9:30 pm''\<rparr>"
  let ?e' = "?s\<lparr>modifiedPaths := [''time''], time := ''21:30''\<rparr>"
  have n: "\<not> isNew ?e" by (simp add: storedEvent_def)
  have m: "\<not> isModified ''title'' ?e" by (simp add: storedEvent_def isModified_def)
  have t: "normalizeTime sampleDate ''9:30 pm'' = ''21:30''" by code_simp
  have p: "preSaveEvent sampleDate [?s] ?e = Some (Inr ?e')"
    by (simp add: preSaveEvent_def storedEvent_def isModified_def t)
  from slug_kept_without_title_change[of ?e sampleDate "[?s]"] n m p
  have "slug ?e' = slug ?e" by blast
  then show ?thesis using n m p by (simp add: storedEvent_def)
qed

lemma underscore_code: "(c = CHR ''_'') = ((of_char c :: nat) = 95)"
proof -
  have "(c = CHR ''_'') = ((of_char c :: nat) = of_char CHR ''_'')"
    by (simp only: of_char_eq_iff)
  then show ?thesis by simp
qed

lemma toLowerChar_not_word: "\<not> isWord c \<Longrightarrow> \<not> isWord (toLowerChar c)"
  by (auto simp: isWord_def isUpper_def isLower_def isDigit_def toLowerChar_def Let_def
      underscore_code split: if_splits)

lemma collapseSeps_all_sep:
  assumes "\<forall>c\<in>set s. isSep c"
  shows "collapseSeps s = (if s = [] then [] else ''-'')"
proof (cases s)
  case Nil
  then show ?thesis by simp
next
  case (Cons a as)
  with assms have d: "dropWhile isSep as = []" by (simp add: dropWhile_eq_Nil_conv)
  have "collapseSeps (a # as) = CHR ''-'' # collapseSeps (dropWhile isSep as)"
    using assms Cons by simp
  then show ?thesis unfolding d Cons by simp
qed

lemma generateSlug_no_word:
  assumes "\<forall>u\<in>set (toLowerCase t). \<not> isWordUnit u"
  shows "generateSlug t = []"
proof -
  let ?r = "removeSpecial (trimUnits (toLowerCase t))"
  have "\<forall>c\<in>set ?r. isSep c"
  proof
    fix c assume c: "c \<in> set ?r"
    then have "Latin1 c \<in> set (toLowerCase t)"
      by (auto dest: set_removeSpecial set_trimUnits)
    then have "\<not> isWordUnit (Latin1 c)" using assms by blast
    then have "\<not> isWord c" by simp
    with c show "isSep c" by (auto simp: isSep_def dest: set_removeSpecial)
  qed
  then have "collapseSeps ?r = (if ?r = [] then [] else ''-'')" by (rule collapseSeps_all_sep)
  then show ?thesis by (simp add: generateSlug_def trimHyphens_def)
qed

lemma toLowerCase_latin1: "toLowerCase (latin1 s) = latin1 (map toLowerChar s)"
  by (induction s) (auto simp: toLowerCase_def latin1_def)

lemma latin1_no_word:
  "\<forall>c\<in>set s. \<not> isWord c \<Longrightarrow> \<forall>u\<in>set (toLowerCase (latin1 s)). \<not> isWordUnit u"
  unfolding toLowerCase_latin1 by (auto simp: latin1_def toLowerChar_not_word)

text \<open>
  Claim C10, as stated, fails: the title that consists of U+212A KELVIN SIGN has no
  word character, and its base slug is \<open>k\<close>, since \<open>toLowerCase\<close> runs before the
  characters outside \<open>\w\<close> are removed. U+0130 gives \<open>i\<close> in the same way.
\<close>

theorem kelvin_sign_has_slug:
  "\<not> isWordUnit U212A \<and> generateSlug [U212A] = ''k''
   \<and> \<not> isWordUnit U0130 \<and> generateSlug [U0130] = ''i''"
  by code_simp

text \<open>
  Claim C10, amended. A title whose lower-cased form has no word character, such as
  \<open>"!!!"\<close>, \<open>"@#$"\<close> and every title of code units up to U+00FF that has no word
  character, has the empty base slug, and the hook does not reject it: the probe loop
  resolves to the empty slug, or to \<open>-k\<close> for a number \<open>k\<close>, and the hook assigns it;
  the only error the hook can raise is the one of the date.
\<close>

theorem empty_slug_is_assigned:
  "generateSlug (latin1 ''!!!'') = [] \<and> generateSlug (latin1 ''@#$'') = []
   \<and> ((\<forall>c\<in>set s. \<not> isWord c) \<longrightarrow> generateSlug (latin1 s) = [])
   \<and> ((\<forall>u\<in>set (toLowerCase (title e)). \<not> isWordUnit u) \<longrightarrow>
        generateSlug (title e) = []
        \<and> (\<exists>k\<le>length db. resolveSlug db e = Some (if k = 0 then [] else ''-'' @ string_of_nat k))
        \<and> (isNew e \<or> isModified ''title'' e \<longrightarrow>
             preSaveEvent D db e = Some (Inl (InvalidDateFormat (date e)))
             \<or> (\<exists>k\<le>length db. \<exists>e'. preSaveEvent D db e = Some (Inr e')
                    \<and> slug e' = (if k = 0 then [] else ''-'' @ string_of_nat k))))"
proof -
  have a: "generateSlug (latin1 ''!!!'') = []" by code_simp
  have b: "generateSlug (latin1 ''@#$'') = []" by code_simp
  have l: "generateSlug (latin1 s) = []" if "\<forall>c\<in>set s. \<not> isWord c"
    using that by (intro generateSlug_no_word latin1_no_word)
  have c: "generateSlug (title e) = []
        \<and> (\<exists>k\<le>length db. resolveSlug db e = Some (if k = 0 then [] else ''-'' @ string_of_nat k))
        \<and> (isNew e \<or> isModified ''title'' e \<longrightarrow>
             preSaveEvent D db e = Some (Inl (InvalidDateFormat (date e)))
             \<or> (\<exists>k\<le>length db. \<exists>e'. preSaveEvent D db e = Some (Inr e')
                    \<and> slug e' = (if k = 0 then [] else ''-'' @ string_of_nat k)))"
    if nw: "\<forall>u\<in>set (toLowerCase (title e)). \<not> isWordUnit u"
  proof -
    have g: "generateSlug (title e) = []" using nw by (rule generateSlug_no_word)
    obtain k where k: "k \<le> length db"
      "resolveSlug db e = Some (candidate (generateSlug (title e)) k)"
      using first_free_candidate[of db "ident e" "generateSlug (title e)"]
        resolveSlug_candidate[of _ db e] by blast
    have r: "resolveSlug db e = Some (if k = 0 then [] else ''-'' @ string_of_nat k)"
      using k(2) by (simp add: g candidate_def)
    have "preSaveEvent D db e = Some (Inl (InvalidDateFormat (date e)))
          \<or> (\<exists>e'. preSaveEvent D db e = Some (Inr e')
                \<and> slug e' = (if k = 0 then [] else ''-'' @ string_of_nat k))"
      if "isNew e \<or> isModified ''title'' e"
      using that r
      by (cases "D (date e)")
         (auto simp: preSaveEvent_def normalizeDate_def isModified_def)
    with g r k(1) show ?thesis by blast
  qed
  from a b l c show ?thesis by blast
qed

theorem empty_slug_is_assigned_witness:
  "list_all (\<lambda>u. \<not> isWordUnit u) (toLowerCase (title (newEvent 2 ''!!!'')))
   \<and> isNew (newEvent 2 ''!!!'')
   \<and> preSaveEvent sampleDate [storedEvent 1 ''???'' []] (newEvent 2 ''!!!'')
       = Some (Inr ((newEvent 2 ''!!!'')\<lparr>slug := ''-1'', time := ''09:00''\<rparr>))"
proof -
  let ?e = "newEvent 2 ''!!!''"
  let ?db = "[storedEvent 1 ''???'' []]"
  have w: "\<forall>u\<in>set (toLowerCase (title ?e)). \<not> isWordUnit u"
    by (simp add: newEvent_def) code_simp
  have n: "isNew ?e" by (simp add: newEvent_def)
  from empty_slug_is_assigned[of _ ?e ?db sampleDate] w
  obtain k where k: "k \<le> length ?db"
    "resolveSlug ?db ?e = Some (if k = 0 then [] else ''-'' @ string_of_nat k)" by blast
  have k1: "k = 1"
  proof (rule ccontr)
    assume "k \<noteq> 1"
    with k(1) have "k = 0" by simp
    with k(2) have "resolveSlug ?db ?e = Some []" by simp
    moreover have "generateSlug (latin1 ''!!!'') = []" by code_simp
    ultimately show False
      by (simp add: resolveSlug_def newEvent_def storedEvent_def, subst (asm) probe.simps)
         (simp add: findOne_def, subst (asm) probe.simps, simp add: findOne_def)
  qed
  have s1: "string_of_nat 1 = ''1''" by code_simp
  have r: "resolveSlug ?db ?e = Some ''-1''" using k(2) unfolding k1 s1 by simp
  have t: "normalizeTime sampleDate ''9:00 AM'' = ''09:00''" by code_simp
  have d: "normalizeDate sampleDate ''2024-06-14'' = Inr ''2024-06-14''" by code_simp
  have "preSaveEvent sampleDate ?db ?e = Some (Inr (?e\<lparr>slug := ''-1'', time := ''09:00''\<rparr>))"
    using r by (simp add: preSaveEvent_def newEvent_def t d)
  with w n show ?thesis by (simp add: list_all_iff)
qed

subsection \<open>The schema's setters on \<open>slug\<close>\<close>

text \<open>
  The schema declares \<open>trim\<close> and \<open>lowercase\<close> for \<open>slug\<close>, which Mongoose applies when
  the hook assigns the field. Every candidate of the loop passes them unchanged.
\<close>

lemma digitChar_isDigit: "d < 10 \<Longrightarrow> isDigit (digitChar d)"
  by (simp add: isDigit_def digitChar_def)

lemma string_of_nat_digits: "c \<in> set (string_of_nat n) \<Longrightarrow> isDigit c"
proof (induction n rule: string_of_nat.induct)
  case (1 n)
  show ?case
  proof (cases "n < 10")
    case True
    with "1.prems" show ?thesis by (simp add: string_of_nat_digit digitChar_isDigit)
  next
    case False
    then have "string_of_nat n = string_of_nat (n div 10) @ [digitChar (n mod 10)]"
      by (subst string_of_nat.simps) simp
    with "1.prems" "1.IH"[OF False] show ?thesis by (auto simp: digitChar_isDigit)
  qed
qed

lemma candidate_chars:
  assumes "c \<in> set (candidate (generateSlug t) k)"
  shows "isLower c \<or> isDigit c \<or> c = CHR ''-''"
  using assms set_generateSlug[of c t] string_of_nat_digits[of c k]
  by (auto simp: candidate_def split: if_splits)

lemma toLowerCase_slug_chars:
  "\<forall>c\<in>set s. isLower c \<or> isDigit c \<or> c = CHR ''-'' \<Longrightarrow>
   toLowerCase (latin1 s) = latin1 s"
  unfolding toLowerCase_latin1
  by (induction s)
     (auto simp: latin1_def toLowerChar_def Let_def isLower_def isDigit_def)

lemma trimUnits_no_space: "\<forall>c\<in>set s. \<not> isSpace c \<Longrightarrow> trimUnits (latin1 s) = latin1 s"
proof -
  assume a: "\<forall>c\<in>set s. \<not> isSpace c"
  have d: "dropWhile isSpaceUnit xs = xs" if "\<forall>u\<in>set xs. \<not> isSpaceUnit u" for xs
    using that by (cases xs) auto
  have "\<forall>u\<in>set (latin1 s). \<not> isSpaceUnit u" using a by (auto simp: latin1_def)
  then show ?thesis by (simp add: trimUnits_def d)
qed

lemma slug_setters_keep_candidate:
  "trimUnits (toLowerCase (latin1 (candidate (generateSlug t) k)))
   = latin1 (candidate (generateSlug t) k)"
proof -
  let ?s = "candidate (generateSlug t) k"
  have c: "\<forall>c\<in>set ?s. isLower c \<or> isDigit c \<or> c = CHR ''-''"
    using candidate_chars by blast
  then have "\<forall>c\<in>set ?s. \<not> isSpace c"
    by (auto simp: isSpace_def isLower_def isDigit_def)
  then show ?thesis using c by (simp add: toLowerCase_slug_chars trimUnits_no_space)
qed

section \<open>Properties of the Booking hook\<close>

text \<open>
  Claim C9, as stated, fails: a Booking that is not new and whose \<open>eventId\<close> is not
  modified passes the hook although no Event has its \<open>eventId\<close>.
\<close>

theorem booking_resave_unchecked:
  "findById ([] :: event list) 7 = None
   \<and> preSaveBooking ([] :: event list) (existingBooking 1 7) = Inr ()"
  by (simp add: preSaveBooking_def existingBooking_def isModified_def findById_def)

text \<open>
  Claim C9, amended. For every save of a Booking that is new or whose \<open>eventId\<close> was
  modified: if no Event has that identifier the hook throws and the save leaves the
  store as it was, and if the hook passes then such an Event exists. A Booking that is
  neither new nor modified in \<open>eventId\<close> is not checked.
\<close>

theorem booking_requires_event:
  "(isNew b \<or> isModified ''eventId'' b \<longrightarrow>
      (findById db (eventId b) = None \<longrightarrow>
         preSaveBooking db b = Inl (EventDoesNotExist (eventId b))
         \<and> saveBooking write db store b = (Inl (EventDoesNotExist (eventId b)), store))
      \<and> (preSaveBooking db b = Inr () \<longrightarrow> (\<exists>ev\<in>set db. ident ev = eventId b)))
   \<and> (\<not> isNew b \<and> \<not> isModified ''eventId'' b \<longrightarrow> preSaveBooking db b = Inr ())"
  by (auto simp: preSaveBooking_def saveBooking_def findById_def find_Some_iff
      split: option.splits)

theorem booking_requires_event_witness:
  "isNew (newBooking 1 7)
   \<and> findById [storedEvent 3 ''React Summit 2024'' ''react-summit-2024''] (eventId (newBooking 1 7)) = None
   \<and> saveBooking (#) [storedEvent 3 ''React Summit 2024'' ''react-summit-2024''] [] (newBooking 1 7)
       = (Inl (EventDoesNotExist 7), [])
   \<and> preSaveBooking [storedEvent 7 ''React Summit 2024'' ''react-summit-2024''] (newBooking 1 7) = Inr ()"
proof -
  let ?db = "[storedEvent 3 ''React Summit 2024'' ''react-summit-2024'']"
  have n: "isNew (newBooking 1 7)" by (simp add: newBooking_def)
  have f: "findById ?db (eventId (newBooking 1 7)) = None"
    by (simp add: findById_def storedEvent_def newBooking_def)
  have e: "eventId (newBooking 1 7) = 7" by (simp add: newBooking_def)
  have "saveBooking (#) ?db [] (newBooking 1 7) = (Inl (EventDoesNotExist 7), [])"
    using booking_requires_event[of "newBooking 1 7" ?db "(#)" "[]"] n f unfolding e by blast
  moreover have "preSaveBooking [storedEvent 7 ''React Summit 2024'' ''react-summit-2024'']
      (newBooking 1 7) = Inr ()"
    by (simp add: preSaveBooking_def findById_def storedEvent_def newBooking_def)
  ultimately show ?thesis using n f by blast
qed

section \<open>Properties of the connection manager\<close>

lemma callAll_pending:
  "conn w = None \<Longrightarrow> promise w = Some p \<Longrightarrow> callAll n w = (replicate n (Inr p), w)"
  by (induction n) (auto simp: connectDB_call_def)

lemma callAll_first:
  "emptyCache w \<Longrightarrow>
   callAll (Suc n) w =
     (replicate (Suc n) (Inr (connectCalls w)),
      w\<lparr>promise := Some (connectCalls w), connectCalls := Suc (connectCalls w)\<rparr>)"
  by (simp add: emptyCache_def connectDB_call_def callAll_pending)

lemma resumeAll_fulfilled:
  "settled w p = Some (Fulfilled h) \<Longrightarrow>
   resumeAll (replicate (Suc n) p) w = (replicate (Suc n) (Some (Inr h)), w\<lparr>conn := Some h\<rparr>)"
  by (induction n arbitrary: w) (auto simp: connectDB_resume_def)

lemma resumeAll_rejected:
  "settled w p = Some (Rejected err) \<Longrightarrow>
   resumeAll (replicate (Suc n) p) w = (replicate (Suc n) (Some (Inl err)), w\<lparr>promise := None\<rparr>)"
  by (induction n arbitrary: w) (auto simp: connectDB_resume_def)


lemma awaited_replicate: "awaited (replicate n (Inr p)) = replicate n p"
  by (induction n) auto

lemma concurrentCalls_fulfilled:
  assumes "emptyCache w"
  shows "concurrentCalls (Suc n) (Fulfilled h) w =
     (replicate (Suc n) (Some (Inr h)),
      w\<lparr>conn := Some h, promise := Some (connectCalls w),
        connectCalls := Suc (connectCalls w),
        settled := (settled w)(connectCalls w \<mapsto> Fulfilled h)\<rparr>)"
proof -
  let ?p = "connectCalls w"
  let ?w1 = "w\<lparr>promise := Some ?p, connectCalls := Suc ?p\<rparr>"
  let ?w2 = "connect_settles ?p (Fulfilled h) ?w1"
  have s: "settled ?w2 ?p = Some (Fulfilled h)" by (simp add: connect_settles_def)
  have "concurrentCalls (Suc n) (Fulfilled h) w = resumeAll (replicate (Suc n) ?p) ?w2"
    unfolding concurrentCalls_def callAll_first[OF assms]
    by (simp only: Let_def prod.case awaited_replicate)
  also have "\<dots> = (replicate (Suc n) (Some (Inr h)), ?w2\<lparr>conn := Some h\<rparr>)"
    using s by (rule resumeAll_fulfilled)
  finally show ?thesis by (simp add: connect_settles_def)
qed

lemma concurrentCalls_rejected:
  assumes "emptyCache w"
  shows "concurrentCalls (Suc n) (Rejected err) w =
     (replicate (Suc n) (Some (Inl err)),
      w\<lparr>promise := None, connectCalls := Suc (connectCalls w),
        settled := (settled w)(connectCalls w \<mapsto> Rejected err)\<rparr>)"
proof -
  let ?p = "connectCalls w"
  let ?w1 = "w\<lparr>promise := Some ?p, connectCalls := Suc ?p\<rparr>"
  let ?w2 = "connect_settles ?p (Rejected err) ?w1"
  have s: "settled ?w2 ?p = Some (Rejected err)" by (simp add: connect_settles_def)
  have "concurrentCalls (Suc n) (Rejected err) w = resumeAll (replicate (Suc n) ?p) ?w2"
    unfolding concurrentCalls_def callAll_first[OF assms]
    by (simp only: Let_def prod.case awaited_replicate)
  also have "\<dots> = (replicate (Suc n) (Some (Inl err)), ?w2\<lparr>promise := None\<rparr>)"
    using s by (rule resumeAll_rejected)
  finally show ?thesis by (simp add: connect_settles_def)
qed

text \<open>
  Claim C1. Let \<open>n\<close> callers enter \<open>connectDB\<close> on an empty cache before the connection
  attempt settles. Then \<open>mongoose.connect\<close> is invoked exactly once and all callers
  await the one promise. If it is fulfilled with a handle, every caller returns that
  handle, and a later call returns it from the cache without connecting. If it is
  rejected, every caller throws that error, both cache slots are empty afterwards, and
  the next call invokes \<open>mongoose.connect\<close> again.
\<close>

theorem single_flight:
  assumes "emptyCache w" and "0 < n"
  shows "callAll n w =
           (replicate n (Inr (connectCalls w)),
            w\<lparr>promise := Some (connectCalls w), connectCalls := Suc (connectCalls w)\<rparr>)
    \<and> fst (concurrentCalls n (Fulfilled h) w) = replicate n (Some (Inr h))
    \<and> conn (snd (concurrentCalls n (Fulfilled h) w)) = Some h
    \<and> connectCalls (snd (concurrentCalls n (Fulfilled h) w)) = Suc (connectCalls w)
    \<and> connectDB_call (snd (concurrentCalls n (Fulfilled h) w))
         = (Inl h, snd (concurrentCalls n (Fulfilled h) w))
    \<and> fst (concurrentCalls n (Rejected err) w) = replicate n (Some (Inl err))
    \<and> emptyCache (snd (concurrentCalls n (Rejected err) w))
    \<and> connectCalls (snd (concurrentCalls n (Rejected err) w)) = Suc (connectCalls w)
    \<and> connectCalls (snd (connectDB_call (snd (concurrentCalls n (Rejected err) w))))
         = Suc (Suc (connectCalls w))"
proof -
  from \<open>0 < n\<close> obtain m where n: "n = Suc m" by (cases n) auto
  show ?thesis
    unfolding n concurrentCalls_fulfilled[OF assms(1)] concurrentCalls_rejected[OF assms(1)]
      callAll_first[OF assms(1)]
    using assms(1) by (simp add: emptyCache_def connectDB_call_def)
qed

theorem single_flight_witness:
  "emptyCache \<lparr>conn = None, promise = None, connectCalls = 0, settled = Map.empty\<rparr>
   \<and> (0::nat) < 3
   \<and> fst (concurrentCalls 3 (Rejected ''bad auth'')
        \<lparr>conn = None, promise = None, connectCalls = 0, settled = Map.empty\<rparr>)
      = [Some (Inl ''bad auth''), Some (Inl ''bad auth''), Some (Inl ''bad auth'')]
   \<and> connectCalls (snd (concurrentCalls 3 (Fulfilled 5)
        \<lparr>conn = None, promise = None, connectCalls = 0, settled = Map.empty\<rparr>)) = 1"
proof -
  let ?w = "\<lparr>conn = None, promise = None, connectCalls = 0, settled = Map.empty\<rparr>"
  have e: "emptyCache ?w" by (simp add: emptyCache_def)
  have l: "(0::nat) < 3" by simp
  have r: "replicate 3 (Some (Inl ''bad auth'') :: (string + handle) option)
      = [Some (Inl ''bad auth''), Some (Inl ''bad auth''), Some (Inl ''bad auth'')]"
    by (simp add: numeral_3_eq_3)
  show ?thesis
    using single_flight[OF e l, of 5 "''bad auth''"] e unfolding r by simp
qed

section \<open>Properties of the time normalizer\<close>

lemma digitChar_of_char: "isDigit c \<Longrightarrow> digitChar (of_char c - 48) = c"
  by (simp add: isDigit_def digitChar_def)

lemma isDigit_zero: "isDigit c \<Longrightarrow> (of_char c :: nat) = 48 \<Longrightarrow> c = CHR ''0''"
proof -
  assume "(of_char c :: nat) = 48"
  then have "(of_char c :: nat) = of_char CHR ''0''" by simp
  then show "c = CHR ''0''" by (simp only: of_char_eq_iff)
qed

lemma pad_hour_1:
  assumes "isDigit a"
  shows "padStart 2 CHR ''0'' (string_of_nat (parseInt [a])) = [CHR ''0'', a]"
proof -
  have "parseInt [a] < 10" using assms by (auto simp: parseInt_def isDigit_def)
  then have "string_of_nat (parseInt [a]) = [digitChar (parseInt [a])]"
    by (rule string_of_nat_digit)
  also have "\<dots> = [a]" using digitChar_of_char[OF assms] by (simp add: parseInt_def)
  finally show ?thesis by (simp add: padStart_def)
qed

lemma pad_hour_2:
  assumes "isDigit a" "isDigit b"
  shows "padStart 2 CHR ''0'' (string_of_nat (parseInt [a, b])) = [a, b]"
proof -
  let ?x = "(of_char a :: nat) - 48" and ?y = "(of_char b :: nat) - 48"
  have v: "parseInt [a, b] = 10 * ?x + ?y" by (simp add: parseInt_def)
  have x: "?x < 10" and y: "?y < 10" using assms by (auto simp: isDigit_def)
  show ?thesis
  proof (cases "?x = 0")
    case True
    then have "a = CHR ''0''" using assms(1) isDigit_zero[of a] by (auto simp: isDigit_def)
    moreover have "string_of_nat (parseInt [a, b]) = [b]"
      using True y digitChar_of_char[OF assms(2)] by (simp add: v string_of_nat_digit)
    ultimately show ?thesis by (simp add: padStart_def)
  next
    case False
    then have "\<not> 10 * ?x + ?y < 10" by simp
    then have "string_of_nat (10 * ?x + ?y)
        = string_of_nat ((10 * ?x + ?y) div 10) @ [digitChar ((10 * ?x + ?y) mod 10)]"
      by (subst string_of_nat.simps) simp
    moreover have "(10 * ?x + ?y) div 10 = ?x" "(10 * ?x + ?y) mod 10 = ?y" using y by auto
    ultimately have "string_of_nat (parseInt [a, b]) = [a, b]"
      using x digitChar_of_char[OF assms(1)] digitChar_of_char[OF assms(2)]
      by (simp add: v string_of_nat_digit)
    then show ?thesis by (simp add: padStart_def)
  qed
qed

lemma pad_hour:
  assumes "list_all isDigit h" "length h = 1 \<or> length h = 2"
  shows "padStart 2 CHR ''0'' (string_of_nat (parseInt h)) = (if length h = 1 then CHR ''0'' # h else h)"
proof -
  from assms(2) consider a where "h = [a]" | a b where "h = [a, b]"
    by (cases h; cases "tl h"; cases "tl (tl h)") auto
  then show ?thesis
    using assms(1) by cases (auto simp: pad_hour_1 pad_hour_2)
qed

lemma timeMatchN_shape:
  "list_all isDigit h \<Longrightarrow> list_all isDigit m \<Longrightarrow> length m = 2 \<Longrightarrow>
   timeMatchN (length h) (h @ '':'' @ m @ rest) = Some (h, m)"
  by (simp add: timeMatchN_def)

lemma timeMatch_shape:
  assumes "list_all isDigit h" "length h = 1 \<or> length h = 2" "list_all isDigit m" "length m = 2"
  shows "timeMatch (h @ '':'' @ m @ rest) = Some (h, m)"
proof (cases "length h = 2")
  case True
  then show ?thesis
    using timeMatchN_shape[OF assms(1,3,4), of rest] by (simp add: timeMatch_def)
next
  case False
  with assms(2) have l: "length h = 1" by simp
  then obtain a where h: "h = [a]" by (cases h) auto
  have "\<not> isDigit CHR '':''" by (simp add: isDigit_def)
  then have "timeMatchN 2 (h @ '':'' @ m @ rest) = None"
    by (simp add: timeMatchN_def h)
  then show ?thesis
    using timeMatchN_shape[OF assms(1,3,4), of rest] l by (simp add: timeMatch_def)
qed

text \<open>
  Claim C8, as stated, fails: \<open>" noon "\<close> is in no recognized format and the result
  is \<open>"noon"\<close>, the trimmed input, not the input itself.
\<close>

theorem normalizeTime_not_verbatim:
  "\<not> hasAmPm (trim '' noon '') \<and> timeMatch (trim '' noon '') = None
   \<and> normalizeTime sampleDate '' noon '' = ''noon''
   \<and> normalizeTime sampleDate '' noon '' \<noteq> '' noon ''"
  by code_simp

text \<open>
  Claim C8, amended. An input with \<open>am\<close> or \<open>pm\<close> that the host's Date reads becomes
  the two-digit hours and minutes of that Date, so \<open>"9:00 AM"\<close> gives \<open>"09:00"\<close> on a
  host that reads it as nine o'clock. An input without \<open>am\<close> or \<open>pm\<close> that starts,
  after trimming, with one or two digits, a colon and two digits becomes \<open>HH:MM\<close>, the
  hour padded to two digits and anything after the minutes dropped, so \<open>"14:30:00"\<close>
  gives \<open>"14:30"\<close>. An input in no recognized format, which the Date branch does not
  read and the pattern does not match, comes back trimmed; the function never fails.
\<close>

theorem normalizeTime_cases:
  "(hasAmPm (trim s) \<and> D (''2000-01-01 '' @ trim s) = Some d \<longrightarrow>
      normalizeTime D s = padStart 2 CHR ''0'' (string_of_nat (hours d)) @ '':''
                            @ padStart 2 CHR ''0'' (string_of_nat (minutes d)))
   \<and> (D ''2000-01-01 9:00 AM'' = Some d \<and> hours d = 9 \<and> minutes d = 0 \<longrightarrow>
      normalizeTime D ''9:00 AM'' = ''09:00'')
   \<and> (\<not> hasAmPm (trim s)
       \<and> trim s = h @ '':'' @ m @ rest \<and> list_all isDigit h \<and> (length h = 1 \<or> length h = 2)
       \<and> list_all isDigit m \<and> length m = 2 \<longrightarrow>
      normalizeTime D s = (if length h = 1 then CHR ''0'' # h else h) @ '':'' @ m)
   \<and> normalizeTime D ''14:30:00'' = ''14:30''
   \<and> ((\<not> hasAmPm (trim s) \<or> D (''2000-01-01 '' @ trim s) = None)
       \<and> timeMatch (trim s) = None \<longrightarrow>
      normalizeTime D s = trim s)"
proof -
  have a: "normalizeTime D s = padStart 2 CHR ''0'' (string_of_nat (hours d)) @ '':''
                            @ padStart 2 CHR ''0'' (string_of_nat (minutes d))"
    if "hasAmPm (trim s)" "D (''2000-01-01 '' @ trim s) = Some d"
    using that by (simp add: normalizeTime_def)
  have b: "normalizeTime D ''9:00 AM'' = ''09:00''"
    if "D ''2000-01-01 9:00 AM'' = Some d" "hours d = 9" "minutes d = 0"
  proof -
    have t: "trim ''9:00 AM'' = ''9:00 AM''" by code_simp
    have p: "padStart 2 CHR ''0'' (string_of_nat 9) = ''09''"
      "padStart 2 CHR ''0'' (string_of_nat 0) = ''00''" by code_simp+
    have "hasAmPm ''9:00 AM''" by code_simp
    then show ?thesis using that by (simp add: normalizeTime_def t p)
  qed
  have c: "normalizeTime D s = (if length h = 1 then CHR ''0'' # h else h) @ '':'' @ m"
    if "\<not> hasAmPm (trim s)"
      "trim s = h @ '':'' @ m @ rest" "list_all isDigit h" "length h = 1 \<or> length h = 2"
      "list_all isDigit m" "length m = 2"
  proof -
    have "timeMatch (trim s) = Some (h, m)"
      unfolding that(2) using that(3-6) by (rule timeMatch_shape)
    moreover have "(if hasAmPm (trim s) then D (''2000-01-01 '' @ trim s) else None) = None"
      using that(1) by auto
    ultimately show ?thesis
      using pad_hour[OF that(3,4)] by (simp add: normalizeTime_def Let_def)
  qed
  have d: "normalizeTime D ''14:30:00'' = ''14:30''"
  proof -
    have t: "trim ''14:30:00'' = ''14:30:00''" by code_simp
    have n: "\<not> hasAmPm ''14:30:00''" by code_simp
    have m: "timeMatch ''14:30:00'' = Some (''14'', ''30'')" by code_simp
    have p: "padStart 2 CHR ''0'' (string_of_nat (parseInt ''14'')) = ''14''" by code_simp
    show ?thesis by (simp add: normalizeTime_def t n m p)
  qed
  have e: "normalizeTime D s = trim s"
    if "\<not> hasAmPm (trim s) \<or> D (''2000-01-01 '' @ trim s) = None" "timeMatch (trim s) = None"
  proof -
    have "(if hasAmPm (trim s) then D (''2000-01-01 '' @ trim s) else None) = None"
      using that(1) by auto
    then show ?thesis using that(2) by (simp add: normalizeTime_def Let_def)
  qed
  from a b c d e show ?thesis by blast
qed


theorem normalizeTime_cases_witness:
  "hasAmPm (trim '' 9:30 pm '') \<and> sampleDate (''2000-01-01 '' @ trim '' 9:30 pm '') \<noteq> None
   \<and> normalizeTime sampleDate '' 9:30 pm '' = ''21:30''
   \<and> normalizeTime sampleDate ''9:00 AM'' = ''09:00''
   \<and> \<not> hasAmPm (trim '' 7:05 '') \<and> trim '' 7:05 '' = ''7'' @ '':'' @ ''05'' @ []
   \<and> normalizeTime sampleDate '' 7:05 '' = ''07:05''
   \<and> \<not> hasAmPm (trim ''noon '') \<and> timeMatch (trim ''noon '') = None
   \<and> normalizeTime sampleDate ''noon '' = ''noon''"
proof -
  let ?d1 = "\<lparr>isoString = ''2000-01-01T21:30:00.000Z'', hours = 21, minutes = 30\<rparr>"
  let ?d2 = "\<lparr>isoString = ''2000-01-01T09:00:00.000Z'', hours = 9, minutes = 0\<rparr>"
  have a1: "hasAmPm (trim '' 9:30 pm '')" by code_simp
  have a2: "sampleDate (''2000-01-01 '' @ trim '' 9:30 pm '') = Some ?d1" by code_simp
  have a3: "padStart 2 CHR ''0'' (string_of_nat 21) @ '':'' @ padStart 2 CHR ''0'' (string_of_nat 30)
            = ''21:30''" by code_simp
  have a: "normalizeTime sampleDate '' 9:30 pm '' = ''21:30''"
    using normalizeTime_cases[of "'' 9:30 pm ''" sampleDate ?d1] a1 a2 a3 by simp
  have b1: "sampleDate ''2000-01-01 9:00 AM'' = Some ?d2" by code_simp
  have b: "normalizeTime sampleDate ''9:00 AM'' = ''09:00''"
    using normalizeTime_cases[of "[]" sampleDate ?d2] b1 by simp
  have c1: "\<not> hasAmPm (trim '' 7:05 '')" by code_simp
  have c2: "trim '' 7:05 '' = ''7'' @ '':'' @ ''05'' @ []" by code_simp
  have c3: "list_all isDigit ''7''" "list_all isDigit ''05''" by code_simp+
  have c: "normalizeTime sampleDate '' 7:05 '' = ''07:05''"
    using normalizeTime_cases[of "'' 7:05 ''" sampleDate _ "''7''" "''05''" "[]"] c1 c2 c3
    by simp
  have e1: "\<not> hasAmPm (trim ''noon '')" by code_simp
  have e2: "timeMatch (trim ''noon '') = None" by code_simp
  have e3: "trim ''noon '' = ''noon''" by code_simp
  have e: "normalizeTime sampleDate ''noon '' = ''noon''"
    using normalizeTime_cases[of "''noon ''" sampleDate] e1 e2 e3 by simp
  from a1 a2 a b c1 c2 c e1 e2 e show ?thesis by simp
qed

section \<open>Properties of the URI normalizer\<close>

text \<open>
  Claim C2, on the code. The first \<open>@\<close> of \<open>user@name:p@ss#1@host/db\<close> is at index 4,
  so the credentials are \<open>user\<close>, without a password, and the host-and-path segment is
  \<open>name:p@ss#1@host/db\<close>; nothing is encoded and the URI comes back as it was. Encoding
  \<open>user@name\<close> and \<open>p@ss#1\<close> as components would give \<open>user%40name\<close> and \<open>p%40ss%231\<close>.
\<close>

theorem first_at_splits_credentials:
  "indexOf ''user@name:p@ss#1@host/db'' CHR ''@'' = Some 4
   \<and> encodeMongoURICredentials ''mongodb+srv://user@name:p@ss#1@host/db''
       = ''mongodb+srv://'' @ encodeURIComponent ''user'' @ ''@'' @ ''name:p@ss#1@host/db''
   \<and> normalizeMongoURI ''mongodb+srv://user@name:p@ss#1@host/db''
       = ''mongodb+srv://user@name:p@ss#1@host/db''
   \<and> encodeURIComponent ''user@name'' = ''user%40name''
   \<and> encodeURIComponent ''p@ss#1'' = ''p%40ss%231''"
  by code_simp

lemma indexOf_None: "indexOf s c = None \<longleftrightarrow> c \<notin> set s"
  by (induction s) auto

lemma indexOf_Some:
  "indexOf s c = Some i \<Longrightarrow> s = take i s @ c # drop (i + 1) s \<and> c \<notin> set (take i s)"
proof (induction s arbitrary: i)
  case Nil
  then show ?case by simp
next
  case (Cons x xs)
  show ?case
  proof (cases "x = c")
    case True
    with Cons.prems show ?thesis by simp
  next
    case False
    with Cons.prems obtain j where j: "indexOf xs c = Some j" "i = Suc j" by auto
    from Cons.IH[OF j(1)] False show ?thesis by (simp add: j(2))
  qed
qed

lemma indexOf_append: "c \<notin> set a \<Longrightarrow> indexOf (a @ c # b) c = Some (length a)"
  by (induction a) auto

lemma protocolMatch_cases:
  "protocolMatch uri = Some p \<Longrightarrow>
     (p = ''mongodb+srv://'' \<or> p = ''mongodb://'') \<and> uri = p @ drop (length p) uri"
  by (auto simp: protocolMatch_def prefix_def split: if_splits)

lemma protocolMatch_append:
  "p = ''mongodb+srv://'' \<or> p = ''mongodb://'' \<Longrightarrow> protocolMatch (p @ z) = Some p"
  by (auto simp: protocolMatch_def)

lemma encodeMongoURICredentials_shape:
  assumes p: "p = ''mongodb+srv://'' \<or> p = ''mongodb://''" and c: "CHR ''@'' \<notin> set creds"
  shows "encodeMongoURICredentials (p @ creds @ CHR ''@'' # rest)
         = p @ encodeCredentials creds @ CHR ''@'' # rest"
proof -
  have m: "protocolMatch (p @ creds @ CHR ''@'' # rest) = Some p"
    using p by (rule protocolMatch_append)
  have i: "indexOf (creds @ CHR ''@'' # rest) CHR ''@'' = Some (length creds)"
    using c by (rule indexOf_append)
  show ?thesis
    unfolding encodeMongoURICredentials_def m
    by (simp add: i Let_def encodeCredentials_def encodePart_def split: option.splits)
qed

lemma encodeMongoURICredentials_no_at:
  "CHR ''@'' \<notin> set (drop (length p) uri) \<Longrightarrow> protocolMatch uri = Some p \<Longrightarrow>
   encodeMongoURICredentials uri = uri"
  by (simp add: encodeMongoURICredentials_def indexOf_None[symmetric])

subsection \<open>Percent-encoding\<close>

lemma of_char_less_256: "(of_char c :: nat) < 256"
proof -
  have "(of_char c :: nat) mod 256 = of_char c" by (rule of_char_mod_256)
  then show ?thesis by (metis mod_less_divisor zero_less_numeral)
qed

lemma char_code_eq: "(c = d) = ((of_char c :: nat) = of_char d)"
  by (simp only: of_char_eq_iff)

lemma hexDigit_code:
  "k < 16 \<Longrightarrow> (48 \<le> (of_char (hexDigit k) :: nat) \<and> (of_char (hexDigit k) :: nat) \<le> 57)
     \<or> (65 \<le> (of_char (hexDigit k) :: nat) \<and> (of_char (hexDigit k) :: nat) \<le> 70)"
  by (auto simp: hexDigit_def)

lemma hexDigit_isHex: "k < 16 \<Longrightarrow> isHex (hexDigit k)"
  using hexDigit_code[of k] by (auto simp: isHex_def isDigit_def)

lemma hexDigit_plain:
  "k < 16 \<Longrightarrow> hexDigit k \<noteq> CHR ''@'' \<and> hexDigit k \<noteq> CHR '':''"
  using hexDigit_code[of k] by (auto simp: char_code_eq[of "hexDigit k"])

lemma pctByte_plain:
  assumes "b < 256"
  shows "CHR ''@'' \<notin> set (pctByte b) \<and> CHR '':'' \<notin> set (pctByte b)"
proof -
  have "b div 16 < 16" using assms by arith
  moreover have "b mod 16 < 16" by simp
  ultimately show ?thesis
    using hexDigit_plain[of "b div 16"] hexDigit_plain[of "b mod 16"]
    by (auto simp: pctByte_def)
qed

lemma isUnreserved_plain: "isUnreserved c \<Longrightarrow> c \<noteq> CHR ''@'' \<and> c \<noteq> CHR '':''"
  by (auto simp: isUnreserved_def isUpper_def isLower_def isDigit_def)

lemma encodeChar_plain: "CHR ''@'' \<notin> set (encodeChar c) \<and> CHR '':'' \<notin> set (encodeChar c)"
proof -
  have n: "(of_char c :: nat) < 256" by (rule of_char_less_256)
  then have "192 + (of_char c :: nat) div 64 < 256" by arith
  moreover have "128 + (of_char c :: nat) mod 64 < 256" by arith
  ultimately have "CHR ''@'' \<notin> set (pctByte (192 + (of_char c :: nat) div 64))
      \<and> CHR '':'' \<notin> set (pctByte (192 + (of_char c :: nat) div 64))"
    "CHR ''@'' \<notin> set (pctByte (128 + (of_char c :: nat) mod 64))
      \<and> CHR '':'' \<notin> set (pctByte (128 + (of_char c :: nat) mod 64))"
    by (simp_all add: pctByte_plain)
  then show ?thesis
    using pctByte_plain[OF n] isUnreserved_plain[of c]
    by (auto simp: encodeChar_def Let_def)
qed

lemma encodeURIComponent_plain:
  "CHR ''@'' \<notin> set (encodeURIComponent s) \<and> CHR '':'' \<notin> set (encodeURIComponent s)"
  using encodeChar_plain by (auto simp: encodeURIComponent_def)

lemma encodeURIComponent_unreserved:
  "\<forall>c\<in>set s. isUnreserved c \<Longrightarrow> encodeURIComponent s = s"
  by (induction s) (auto simp: encodeURIComponent_def encodeChar_def)

lemma isAlreadyEncoded_Cons: "isAlreadyEncoded s \<Longrightarrow> isAlreadyEncoded (c # s)"
  by (cases s rule: isAlreadyEncoded.cases) auto

lemma isAlreadyEncoded_prepend: "isAlreadyEncoded s \<Longrightarrow> isAlreadyEncoded (p @ s)"
  by (induction p) (auto simp: isAlreadyEncoded_Cons)

lemma encodeChar_escaped:
  assumes "\<not> isUnreserved c"
  shows "\<exists>a b r. encodeChar c = CHR ''%'' # a # b # r \<and> isHex a \<and> isHex b"
proof -
  have n: "(of_char c :: nat) < 256" by (rule of_char_less_256)
  show ?thesis
  proof (cases "(of_char c :: nat) < 128")
    case True
    then have "encodeChar c = [CHR ''%'', hexDigit (of_char c div 16), hexDigit (of_char c mod 16)]"
      using assms by (simp add: encodeChar_def pctByte_def Let_def)
    moreover have "(of_char c :: nat) div 16 < 16" using True by arith
    then have "isHex (hexDigit (of_char c div 16))" by (rule hexDigit_isHex)
    moreover have "isHex (hexDigit (of_char c mod 16))" by (intro hexDigit_isHex) auto
    ultimately show ?thesis by blast
  next
    case False
    let ?b = "192 + (of_char c :: nat) div 64"
    have "encodeChar c = CHR ''%'' # hexDigit (?b div 16) # hexDigit (?b mod 16)
            # pctByte (128 + of_char c mod 64)"
      using assms False by (simp add: encodeChar_def pctByte_def Let_def)
    moreover have "?b div 16 < 16" using n by arith
    then have "isHex (hexDigit (?b div 16))" by (rule hexDigit_isHex)
    moreover have "isHex (hexDigit (?b mod 16))" by (intro hexDigit_isHex) auto
    ultimately show ?thesis by blast
  qed
qed

lemma encodeURIComponent_escapes:
  assumes "\<exists>c\<in>set s. \<not> isUnreserved c"
  shows "isAlreadyEncoded (encodeURIComponent s)"
proof -
  from assms obtain c where c: "c \<in> set s" "\<not> isUnreserved c" by blast
  from c(1) obtain pre post where s: "s = pre @ c # post" by (meson split_list)
  from encodeChar_escaped[OF c(2)] obtain a b r
    where e: "encodeChar c = CHR ''%'' # a # b # r" "isHex a" "isHex b" by blast
  have "encodeURIComponent s
        = encodeURIComponent pre @ CHR ''%'' # a # b # (r @ encodeURIComponent post)"
    by (simp add: s encodeURIComponent_def e(1))
  moreover have "isAlreadyEncoded (CHR ''%'' # a # b # (r @ encodeURIComponent post))"
    using e(2,3) by simp
  ultimately show ?thesis by (simp add: isAlreadyEncoded_prepend)
qed

lemma encodePart_idem: "encodePart (encodePart x) = encodePart x"
proof (cases "isAlreadyEncoded x")
  case True
  then show ?thesis by (simp add: encodePart_def)
next
  case False
  show ?thesis
  proof (cases "\<forall>c\<in>set x. isUnreserved c")
    case True
    then show ?thesis by (simp add: encodePart_def encodeURIComponent_unreserved)
  next
    case nu: False
    then have "isAlreadyEncoded (encodeURIComponent x)"
      by (intro encodeURIComponent_escapes) blast
    then show ?thesis using False by (simp add: encodePart_def)
  qed
qed

lemma encodePart_at: "CHR ''@'' \<notin> set x \<Longrightarrow> CHR ''@'' \<notin> set (encodePart x)"
  using encodeURIComponent_plain[of x] by (simp add: encodePart_def)

lemma encodePart_colon: "CHR '':'' \<notin> set x \<Longrightarrow> CHR '':'' \<notin> set (encodePart x)"
  using encodeURIComponent_plain[of x] by (simp add: encodePart_def)

lemma encodeCredentials_at:
  assumes "CHR ''@'' \<notin> set creds"
  shows "CHR ''@'' \<notin> set (encodeCredentials creds)"
proof (cases "indexOf creds CHR '':''")
  case None
  then show ?thesis using encodePart_at[OF assms] by (simp add: encodeCredentials_def)
next
  case (Some i)
  have "CHR ''@'' \<notin> set (take i creds)" using assms by (meson in_set_takeD)
  moreover have "CHR ''@'' \<notin> set (drop (i + 1) creds)" using assms by (meson in_set_dropD)
  ultimately show ?thesis
    using Some encodePart_at[of "take i creds"] encodePart_at[of "drop (i + 1) creds"]
    by (simp add: encodeCredentials_def)
qed

lemma encodeCredentials_idem: "encodeCredentials (encodeCredentials creds) = encodeCredentials creds"
proof (cases "indexOf creds CHR '':''")
  case None
  then have "CHR '':'' \<notin> set creds" by (simp add: indexOf_None)
  then have "CHR '':'' \<notin> set (encodePart creds)" by (rule encodePart_colon)
  then have "indexOf (encodePart creds) CHR '':'' = None" by (simp add: indexOf_None)
  then show ?thesis using None by (simp add: encodeCredentials_def encodePart_idem)
next
  case (Some i)
  let ?u = "take i creds" and ?pw = "drop (i + 1) creds"
  from indexOf_Some[OF Some] have "CHR '':'' \<notin> set ?u" by simp
  then have "CHR '':'' \<notin> set (encodePart ?u)" by (rule encodePart_colon)
  then have "indexOf (encodePart ?u @ CHR '':'' # encodePart ?pw) CHR '':''
      = Some (length (encodePart ?u))" by (rule indexOf_append)
  then show ?thesis using Some by (simp add: encodeCredentials_def encodePart_idem)
qed

subsection \<open>The port pattern\<close>

lemma take1_eq: "take 1 xs = [c] \<Longrightarrow> xs = c # drop 1 xs"
  by (cases xs) auto

lemma portMatch_SomeD:
  assumes "portMatch s = Some (g, r)"
  shows "\<exists>creds host digits.
           s = ''mongodb+srv://'' @ creds @ CHR ''@'' # host @ CHR '':'' # digits @ r
         \<and> g = ''mongodb+srv://'' @ creds @ CHR ''@'' # host
         \<and> creds \<noteq> [] \<and> CHR ''@'' \<notin> set creds
         \<and> host \<noteq> [] \<and> CHR '':'' \<notin> set host \<and> CHR ''/'' \<notin> set host
         \<and> digits \<noteq> [] \<and> list_all isDigit digits"
proof -
  define r0 where "r0 = drop 14 s"
  define creds where "creds = takeWhile (\<lambda>c. c \<noteq> CHR ''@'') r0"
  define r1 where "r1 = dropWhile (\<lambda>c. c \<noteq> CHR ''@'') r0"
  define host where "host = takeWhile (\<lambda>c. c \<noteq> CHR '':'' \<and> c \<noteq> CHR ''/'') (drop 1 r1)"
  define r2 where "r2 = dropWhile (\<lambda>c. c \<noteq> CHR '':'' \<and> c \<noteq> CHR ''/'') (drop 1 r1)"
  define digits where "digits = takeWhile isDigit (drop 1 r2)"
  define r3 where "r3 = dropWhile isDigit (drop 1 r2)"
  from assms have p: "prefix ''mongodb+srv://'' s"
    by (simp add: portMatch_def split: if_splits)
  with assms have c: "creds \<noteq> []" "take 1 r1 = ''@''" "host \<noteq> []" "take 1 r2 = '':''"
      "digits \<noteq> []"
    and g: "g = ''mongodb+srv://'' @ creds @ ''@'' @ host" and r: "r = r3"
    unfolding portMatch_def creds_def r1_def host_def r2_def digits_def r3_def r0_def
    by (auto simp: Let_def split: if_splits)
  from p have "s = ''mongodb+srv://'' @ r0"
    unfolding r0_def by (auto simp: prefix_def)
  moreover have "r0 = creds @ r1" unfolding creds_def r1_def by simp
  moreover have "r1 = CHR ''@'' # drop 1 r1" using c(2) by (rule take1_eq)
  moreover have "drop 1 r1 = host @ r2" unfolding host_def r2_def by simp
  moreover have "r2 = CHR '':'' # drop 1 r2" using c(4) by (rule take1_eq)
  moreover have "drop 1 r2 = digits @ r3" unfolding digits_def r3_def by simp
  ultimately have "s = ''mongodb+srv://'' @ creds @ CHR ''@'' # host @ CHR '':'' # digits @ r"
    unfolding r by (metis append_Cons)
  moreover have "CHR ''@'' \<notin> set creds"
    unfolding creds_def by (auto dest: set_takeWhileD)
  moreover have "CHR '':'' \<notin> set host \<and> CHR ''/'' \<notin> set host"
    unfolding host_def by (auto dest: set_takeWhileD)
  moreover have "list_all isDigit digits"
    unfolding digits_def by (auto simp: list_all_iff dest: set_takeWhileD)
  ultimately show ?thesis using c(1,3,5) g by auto
qed

lemma replacePort_none: "(\<forall>t. suffix t s \<longrightarrow> portMatch t = None) \<Longrightarrow> replacePort s = s"
proof (induction s)
  case Nil
  then show ?case by simp
next
  case (Cons c cs)
  have "portMatch (c # cs) = None" using Cons.prems by (simp add: suffix_order.refl)
  moreover have "replacePort cs = cs"
    using Cons.prems by (intro Cons.IH) (auto simp: suffix_Cons)
  ultimately show ?case by simp
qed

lemma replacePort_no_at: "CHR ''@'' \<notin> set s \<Longrightarrow> replacePort s = s"
proof (rule replacePort_none, intro allI impI)
  fix t assume a: "CHR ''@'' \<notin> set s" and t: "suffix t s"
  show "portMatch t = None"
  proof (rule ccontr)
    assume "portMatch t \<noteq> None"
    then obtain g r where "portMatch t = Some (g, r)" by auto
    from portMatch_SomeD[OF this] have "CHR ''@'' \<in> set t" by auto
    with t a show False by (auto simp: suffix_def)
  qed
qed

subsection \<open>Port stripping\<close>

lemma normalize_srv_no_at:
  assumes "CHR ''@'' \<notin> set rest"
  shows "normalizeMongoURI (''mongodb+srv://'' @ rest) = ''mongodb+srv://'' @ rest"
proof -
  have m: "protocolMatch (''mongodb+srv://'' @ rest) = Some ''mongodb+srv://''"
    by (rule protocolMatch_append) simp
  have "encodeMongoURICredentials (''mongodb+srv://'' @ rest) = ''mongodb+srv://'' @ rest"
    using assms by (intro encodeMongoURICredentials_no_at[OF _ m]) simp
  moreover have "replacePort (''mongodb+srv://'' @ rest) = ''mongodb+srv://'' @ rest"
    using assms by (intro replacePort_no_at) simp
  ultimately show ?thesis by (simp add: normalizeMongoURI_def)
qed

text \<open>
  Claim C4, on the code. \<open>mongodb+srv://host:27017/db\<close> has the scheme that takes no
  port and comes back with its port: the pattern asks for credentials and a \<open>@\<close>
  before the host, and this URI has none. The same URI with credentials loses the
  port, and with the scheme \<open>mongodb://\<close> it keeps it.
\<close>

theorem srv_port_kept_without_credentials:
  "normalizeMongoURI ''mongodb+srv://host:27017/db'' = ''mongodb+srv://host:27017/db''
   \<and> normalizeMongoURI ''mongodb+srv://u:p@host:27017/db'' = ''mongodb+srv://u:p@host/db''
   \<and> normalizeMongoURI ''mongodb://u:p@host:27017/db'' = ''mongodb://u:p@host:27017/db''"
  by code_simp

subsection \<open>Idempotence\<close>

text \<open>
  Credential encoding is idempotent on every string, and so is \<open>normalize\<close> on every
  string that does not start with \<open>mongodb+srv://\<close>: there only the credentials are
  encoded.
\<close>

lemma encode_cases:
  "encodeMongoURICredentials x = x
   \<or> (\<exists>p creds rest. (p = ''mongodb+srv://'' \<or> p = ''mongodb://'')
         \<and> CHR ''@'' \<notin> set creds \<and> x = p @ creds @ CHR ''@'' # rest
         \<and> encodeMongoURICredentials x = p @ encodeCredentials creds @ CHR ''@'' # rest)"
proof (cases "protocolMatch x")
  case None
  then show ?thesis by (simp add: encodeMongoURICredentials_def)
next
  case (Some p)
  from protocolMatch_cases[OF Some]
  have p: "p = ''mongodb+srv://'' \<or> p = ''mongodb://''" and x: "x = p @ drop (length p) x"
    by auto
  show ?thesis
  proof (cases "indexOf (drop (length p) x) CHR ''@''")
    case None
    then show ?thesis using Some by (simp add: encodeMongoURICredentials_def)
  next
    case (Some i)
    let ?a = "drop (length p) x"
    from indexOf_Some[OF Some]
    have a: "?a = take i ?a @ CHR ''@'' # drop (i + 1) ?a" and n: "CHR ''@'' \<notin> set (take i ?a)"
      by auto
    have x': "x = p @ take i ?a @ CHR ''@'' # drop (i + 1) ?a" using x a by metis
    have "encodeMongoURICredentials (p @ take i ?a @ CHR ''@'' # drop (i + 1) ?a)
          = p @ encodeCredentials (take i ?a) @ CHR ''@'' # drop (i + 1) ?a"
      using p n by (rule encodeMongoURICredentials_shape)
    with x' p n show ?thesis by metis
  qed
qed

lemma encode_idem:
  "encodeMongoURICredentials (encodeMongoURICredentials x) = encodeMongoURICredentials x"
proof -
  from encode_cases[of x] show ?thesis
  proof
    assume "encodeMongoURICredentials x = x" then show ?thesis by simp
  next
    assume "\<exists>p creds rest. (p = ''mongodb+srv://'' \<or> p = ''mongodb://'')
         \<and> CHR ''@'' \<notin> set creds \<and> x = p @ creds @ CHR ''@'' # rest
         \<and> encodeMongoURICredentials x = p @ encodeCredentials creds @ CHR ''@'' # rest"
    then obtain p creds rest where p: "p = ''mongodb+srv://'' \<or> p = ''mongodb://''"
      and c: "CHR ''@'' \<notin> set creds"
      and e: "encodeMongoURICredentials x = p @ encodeCredentials creds @ CHR ''@'' # rest"
      by blast
    have "encodeMongoURICredentials (p @ encodeCredentials creds @ CHR ''@'' # rest)
          = p @ encodeCredentials (encodeCredentials creds) @ CHR ''@'' # rest"
      using p encodeCredentials_at[OF c] by (rule encodeMongoURICredentials_shape)
    then show ?thesis by (simp add: e encodeCredentials_idem)
  qed
qed

lemma encode_keeps_scheme:
  "prefix ''mongodb+srv://'' (encodeMongoURICredentials x) = prefix ''mongodb+srv://'' x"
proof -
  from encode_cases[of x] show ?thesis
  proof
    assume "encodeMongoURICredentials x = x" then show ?thesis by simp
  next
    assume "\<exists>p creds rest. (p = ''mongodb+srv://'' \<or> p = ''mongodb://'')
         \<and> CHR ''@'' \<notin> set creds \<and> x = p @ creds @ CHR ''@'' # rest
         \<and> encodeMongoURICredentials x = p @ encodeCredentials creds @ CHR ''@'' # rest"
    then obtain p creds rest where p: "p = ''mongodb+srv://'' \<or> p = ''mongodb://''"
      and x: "x = p @ creds @ CHR ''@'' # rest"
      and e: "encodeMongoURICredentials x = p @ encodeCredentials creds @ CHR ''@'' # rest"
      by blast
    have "prefix ''mongodb+srv://'' (p @ encodeCredentials creds @ CHR ''@'' # rest)
          = prefix ''mongodb+srv://'' (p @ creds @ CHR ''@'' # rest)"
      using p by auto
    then show ?thesis using e x by simp
  qed
qed

lemma normalize_other_scheme:
  "\<not> prefix ''mongodb+srv://'' x \<Longrightarrow> normalizeMongoURI x = encodeMongoURICredentials x"
  by (simp add: normalizeMongoURI_def encode_keeps_scheme)

lemma normalize_other_idem:
  assumes "\<not> prefix ''mongodb+srv://'' x"
  shows "normalizeMongoURI (normalizeMongoURI x) = normalizeMongoURI x"
proof -
  have "\<not> prefix ''mongodb+srv://'' (encodeMongoURICredentials x)"
    using assms by (simp add: encode_keeps_scheme)
  then show ?thesis
    using assms by (simp add: normalize_other_scheme encode_idem)
qed

text \<open>
  Claim C3, on the code. The first application removes the port \<open>:27017\<close>. In its
  output the host class of the pattern runs on through the \<open>?\<close>, so the second
  application takes \<open>:1\<close> at the end of the query for a port and removes it as well:
  applying \<open>normalize\<close> twice is not the same as applying it once.
\<close>

theorem normalize_not_idempotent:
  "normalizeMongoURI ''mongodb+srv://u:p@host:27017?readPreferenceTags=rack:1''
     = ''mongodb+srv://u:p@host?readPreferenceTags=rack:1''
   \<and> normalizeMongoURI (normalizeMongoURI ''mongodb+srv://u:p@host:27017?readPreferenceTags=rack:1'')
     = ''mongodb+srv://u:p@host?readPreferenceTags=rack''
   \<and> normalizeMongoURI (normalizeMongoURI ''mongodb+srv://u:p@host:27017?readPreferenceTags=rack:1'')
     \<noteq> normalizeMongoURI ''mongodb+srv://u:p@host:27017?readPreferenceTags=rack:1''"
  by code_simp

end
